theory Spec2Isabelle
  imports Main "HOL-Library.Sublist" "HOL-Library.Log_Nat" "HOL-Library.Word"
begin

section \<open>Data model\<close>

text \<open>
  The repository holds the upload page of a puzzle solver in two variants: the
  monolithic \<^verbatim>\<open>SudokuUploader\<close> (unnamed part 3), which owns all state, and the
  split pair \<^verbatim>\<open>pages/Sudoku.tsx\<close> (job sequencing, result, error) with
  \<^verbatim>\<open>components/SudokuUploader.tsx\<close> (acquisition, preview, downscale). Both
  are event-driven: every handler runs to its next \<^verbatim>\<open>await\<close> without
  interruption. The model cuts each async function at its awaits and gives one
  state transformer per piece; the locals that survive an await are arguments
  of the continuation.
\<close>

text \<open>An object URL is identified by its serial number (\<^verbatim>\<open>blob:...\<close> strings
  are never empty, so every URL is truthy).\<close>

type_synonym url = nat

text \<open>A \<^verbatim>\<open>Blob\<close> or \<^verbatim>\<open>File\<close>: an object identity, its MIME type and its
  byte size.\<close>

record blob =
  blobId :: nat
  type :: string
  size_b :: nat

text \<open>A thrown value, as far as the handlers read it: \<^verbatim>\<open>e?.name\<close> and
  \<^verbatim>\<open>e?.message\<close>.\<close>

datatype js_error = JsError (name: "string option") (message: "string option")

text \<open>How an awaited promise settles.\<close>

datatype 'a settled = Resolved 'a | Rejected js_error

section \<open>The processing stub\<close>

text \<open>
  Decimal digits of a number, as a template literal prints a non-negative
  integer (job ids and byte sizes stay far below \<open>10\<^sup>2\<^sup>1\<close>, where JavaScript
  switches to exponent notation).
\<close>

function show_nat :: "nat \<Rightarrow> string" where
  "show_nat n =
     (if n < 10 then [''0123456789'' ! n]
      else show_nat (n div 10) @ [''0123456789'' ! (n mod 10)])"
  by pat_completeness auto
termination
  by (relation "measure id") auto

declare show_nat.simps [simp del]

text \<open>
  \<^verbatim>\<open>processImageInWasm\<close>. One call is a small machine: the timeout it armed
  (the time it is due, on the page's millisecond clock), the signal it was
  given (absent, or its aborted flag), whether \<^verbatim>\<open>onAbort\<close> still listens, and
  the promise the executor settles. \<^verbatim>\<open>resolve\<close> and \<^verbatim>\<open>reject\<close> act on a
  pending promise only.
\<close>

record stub_call =
  jobId_of :: nat
  imageBlob :: blob
  clock :: nat
  timer :: "nat option"
  signal :: "bool option"
  listening :: bool
  promise :: "unit settled option"

definition settle :: "unit settled \<Rightarrow> stub_call \<Rightarrow> stub_call" where
  "settle r c = (case promise c of None \<Rightarrow> c\<lparr>promise := Some r\<rparr> | Some _ \<Rightarrow> c)"

text \<open>\<^verbatim>\<open>new DOMException('Aborted', 'AbortError')\<close>\<close>

definition abortError :: js_error where
  "abortError = JsError (Some ''AbortError'') (Some ''Aborted'')"

text \<open>\<^verbatim>\<open>onAbort\<close>: clear the timeout, reject.\<close>

definition onAbort :: "stub_call \<Rightarrow> stub_call" where
  "onAbort c = settle (Rejected abortError) (c\<lparr>timer := None\<rparr>)"

text \<open>The executor of the promise, run at the call (lines 15-25).\<close>

definition processImageInWasm :: "blob \<Rightarrow> bool option \<Rightarrow> nat \<Rightarrow> nat \<Rightarrow> stub_call" where
  "processImageInWasm img sig jobId now =
     (let c = \<lparr> jobId_of = jobId, imageBlob = img, clock = now, timer = Some (now + 900),
                signal = sig, listening = False, promise = None \<rparr>
      in case sig of
           None \<Rightarrow> c
         | Some is_aborted \<Rightarrow> (if is_aborted then onAbort c else c)\<lparr>listening := True\<rparr>)"

text \<open>
  What can happen to a call afterwards: time passes, the browser runs the
  timeout's callback (never before it is due), or the controller of the signal
  is aborted (an abort event fires once; the listener was added with
  \<^verbatim>\<open>once\<close>).
\<close>

datatype stub_event = Elapse nat | TimerFires | SignalAbort

fun stub_step :: "stub_call \<Rightarrow> stub_event \<Rightarrow> stub_call" where
  "stub_step c (Elapse d) = c\<lparr>clock := clock c + d\<rparr>"
| "stub_step c TimerFires =
     (case timer c of
        None \<Rightarrow> c
      | Some due \<Rightarrow> if due \<le> clock c then settle (Resolved ()) (c\<lparr>timer := None\<rparr>) else c)"
| "stub_step c SignalAbort =
     (case signal c of
        Some False \<Rightarrow>
          (let c1 = c\<lparr>signal := Some True\<rparr>
           in if listening c1 then onAbort (c1\<lparr>listening := False\<rparr>) else c1)
      | _ \<Rightarrow> c)"

definition stub_run :: "stub_call \<Rightarrow> stub_event list \<Rightarrow> stub_call" where
  "stub_run = foldl stub_step"

text \<open>The string of line 26; the check mark U+2713 is its three UTF-8 bytes.\<close>

definition stubResult :: "nat \<Rightarrow> blob \<Rightarrow> string" where
  "stubResult jobId img =
     ''WASM stub '' @ [CHR 0xE2, CHR 0x9C, CHR 0x93] @ '' (job #'' @ show_nat jobId @
     ''). Bytes: '' @ show_nat (size_b img)"

text \<open>How the async function has settled: the awaited promise's rejection is
  rethrown, its fulfilment lets line 26 return.\<close>

definition outcome :: "stub_call \<Rightarrow> string settled option" where
  "outcome c =
     (case promise c of
        None \<Rightarrow> None
      | Some (Resolved _) \<Rightarrow> Some (Resolved (stubResult (jobId_of c) (imageBlob c)))
      | Some (Rejected e) \<Rightarrow> Some (Rejected e))"

section \<open>The page\<close>

text \<open>
  The signals and variables of the page (the same set in both variants), the
  part of the browser they act on (object URLs handed out and revoked, abort
  controllers, the console's warnings, the calls of the processing function),
  and the continuations that are suspended at an await (\<open>awaitingDownscale\<close>
  with the file and the downscale's object URL, \<open>awaitingProcess\<close> with the job
  id). \<open>now\<close> is the millisecond clock, and \<open>inflight\<close> holds every call of
  \<^verbatim>\<open>processImageInWasm\<close> made so far with its job id and the controller whose
  signal it was given. \<open>effectPrev\<close> is the value the preview effect returned last;
  \<open>shown\<close> records every URL the preview signal has held; \<open>mounted\<close> is false
  once the component's cleanups have run. The job counter is a JavaScript
  number that only ever counts up from 0, a natural number here. The drag
  highlight (\<^verbatim>\<open>isDragging\<close>, \<^verbatim>\<open>dragDepth\<close>) takes no part in any handler below
  and is left out.
\<close>

record page =
  imagePreviewUrl :: "url option"
  isProcessing :: bool
  result :: string
  error :: string
  currentJob :: nat
  currentAbort :: "nat option"
  effectPrev :: "url option"
  nextUrl :: nat
  revoked :: "url list"
  nextController :: nat
  aborted :: "nat set"
  warnings :: "(string \<times> js_error) list"
  processCalls :: "(blob \<times> nat \<times> nat) list"
  mounted :: bool
  shown :: "url list"
  awaitingDownscale :: "(blob \<times> url) list"
  awaitingProcess :: "nat list"
  now :: nat
  inflight :: "(nat \<times> nat \<times> stub_call) list"

definition initial :: page where
  "initial = \<lparr> imagePreviewUrl = None, isProcessing = False, result = [], error = [],
     currentJob = 0, currentAbort = None, effectPrev = None, nextUrl = 0, revoked = [],
     nextController = 0, aborted = {}, warnings = [], processCalls = [], mounted = True,
     shown = [], awaitingDownscale = [], awaitingProcess = [], now = 0, inflight = [] \<rparr>"

section \<open>The job sequencer\<close>

text \<open>\<^verbatim>\<open>currentAbort?.abort()\<close>: the controller is marked aborted and the abort
  event reaches, at once, the calls that were given its signal.\<close>

definition abortCurrent :: "page \<Rightarrow> page" where
  "abortCurrent s =
     (case currentAbort s of
        None \<Rightarrow> s
      | Some ac \<Rightarrow>
          s\<lparr>aborted := insert ac (aborted s),
            inflight :=
              map (\<lambda>(j, a, c). (j, a, if a = ac then stub_step c SignalAbort else c))
                (inflight s)\<rparr>)"

text \<open>
  Submission, the same statements in \<^verbatim>\<open>handleImage\<close> (Sudoku.tsx 39-45) and in
  the monolithic \<^verbatim>\<open>handleFiles\<close> (151-162): cancel the job in flight, mint the
  next job id and a new controller, raise the processing flag, call
  \<^verbatim>\<open>processImageInWasm\<close> with the new controller's signal, which is not
  aborted, and suspend. The call is recorded as (blob, controller, job id).
\<close>

definition submitJob :: "blob \<Rightarrow> page \<Rightarrow> page" where
  "submitJob img s =
     (let s1 = abortCurrent s;
          jobId = currentJob s1 + 1;
          s2 = s1\<lparr>currentJob := jobId\<rparr>;
          ac = nextController s2;
          s3 = s2\<lparr>nextController := ac + 1, currentAbort := Some ac\<rparr>;
          s4 = s3\<lparr>isProcessing := True\<rparr>
      in s4\<lparr>processCalls := processCalls s4 @ [(img, ac, jobId)],
             inflight :=
               inflight s4 @ [(jobId, ac, processImageInWasm img (Some False) jobId (now s4))],
             awaitingProcess := awaitingProcess s4 @ [jobId]\<rparr>)"

text \<open>\<^verbatim>\<open>handleImage\<close> of \<^verbatim>\<open>pages/Sudoku.tsx\<close>, up to its await.\<close>

definition handleImage :: "blob \<Rightarrow> page \<Rightarrow> page" where
  "handleImage img s = submitJob img (s\<lparr>error := [], result := []\<rparr>)"

text \<open>\<^verbatim>\<open>e?.message || 'Image processing error'\<close>: an absent or empty message is
  falsy.\<close>

definition messageOr :: "js_error \<Rightarrow> string" where
  "messageOr e =
     (case message e of
        None \<Rightarrow> ''Image processing error''
      | Some m \<Rightarrow> if m = [] then ''Image processing error'' else m)"

text \<open>
  The rest of the \<^verbatim>\<open>try\<close>/\<^verbatim>\<open>catch\<close>/\<^verbatim>\<open>finally\<close> once the call of job
  \<open>jobId\<close> has settled (Sudoku.tsx 45-53, monolith 159-171; the two texts are
  the same). The \<^verbatim>\<open>finally\<close> block runs after either early \<^verbatim>\<open>return\<close>.
\<close>

definition afterProcess :: "nat \<Rightarrow> string settled \<Rightarrow> page \<Rightarrow> page" where
  "afterProcess jobId r s =
     (let s1 =
        (case r of
           Resolved res \<Rightarrow> if jobId \<noteq> currentJob s then s else s\<lparr>result := res\<rparr>
         | Rejected e \<Rightarrow>
             if name e = Some ''AbortError'' then s else s\<lparr>error := messageOr e\<rparr>)
      in if jobId = currentJob s1 then s1\<lparr>isProcessing := False\<rparr> else s1)"

section \<open>Image acquisition\<close>

definition MAX_BYTES :: nat where
  "MAX_BYTES = 10 * 1024 * 1024"

text \<open>\<^verbatim>\<open>files?.[0]\<close>: \<open>None\<close> stands for \<^verbatim>\<open>null\<close> or \<^verbatim>\<open>undefined\<close>.\<close>

definition firstFile :: "blob list option \<Rightarrow> blob option" where
  "firstFile files =
     (case files of None \<Rightarrow> None | Some [] \<Rightarrow> None | Some (f # _) \<Rightarrow> Some f)"

text \<open>\<^verbatim>\<open>x.toFixed(0)\<close> for \<open>x \<ge> 0\<close>: the nearest integer, the larger one at a tie.\<close>

definition toFixed0 :: "rat \<Rightarrow> string" where
  "toFixed0 x = show_nat (nat \<lfloor>x + 1 / 2\<rfloor>)"

definition tooLargeMessage :: string where
  "tooLargeMessage =
     ''File is too large (> '' @ toFixed0 (of_nat MAX_BYTES / (1024 * 1024)) @ '' MB).''"

section \<open>Preview manager\<close>

definition createObjectURL :: "page \<Rightarrow> url \<times> page" where
  "createObjectURL s = (nextUrl s, s\<lparr>nextUrl := nextUrl s + 1\<rparr>)"

definition revokeObjectURL :: "url \<Rightarrow> page \<Rightarrow> page" where
  "revokeObjectURL u s = s\<lparr>revoked := revoked s @ [u]\<rparr>"

text \<open>
  \<^verbatim>\<open>setImagePreviewUrl\<close> followed by the run of the effect that reads the
  signal (lines 107-111 of the monolith, 78-82 of the component): a signal
  notifies only when its value changes, and the effect then revokes the value
  it returned last if that is non-null and differs from the current one. The
  effect belongs to the component: once that is disposed it runs no more.
\<close>

definition setImagePreviewUrl :: "url option \<Rightarrow> page \<Rightarrow> page" where
  "setImagePreviewUrl current s =
     (if imagePreviewUrl s = current then s
      else
        let s1 = s\<lparr>imagePreviewUrl := current,
                   shown := (case current of None \<Rightarrow> shown s | Some u \<Rightarrow> shown s @ [u])\<rparr>;
            s2 = (case effectPrev s1 of
                    None \<Rightarrow> s1
                  | Some prev \<Rightarrow> if Some prev \<noteq> current then revokeObjectURL prev s1 else s1)
        in if mounted s1 then s2\<lparr>effectPrev := current\<rparr> else s1)"

text \<open>The cleanup of lines 112-115 (83-86): revoke what the signal holds.\<close>

definition cleanupPreview :: "page \<Rightarrow> page" where
  "cleanupPreview s =
     (case imagePreviewUrl s of None \<Rightarrow> s | Some current \<Rightarrow> revokeObjectURL current s)"

section \<open>Downscaler\<close>

text \<open>
  JavaScript numbers are binary64. \<open>fl\<close> rounds a rational to the nearest
  number with a 53-bit significand, ties to even: \<open>ilog2 x\<close> is the exponent
  \<open>e\<close> with \<open>2\<^sup>e \<le> x < 2\<^sup>e\<^sup>+\<^sup>1\<close>, and \<open>x\<close> is rounded to a multiple of \<open>2\<^sup>e\<^sup>-\<^sup>5\<^sup>2\<close>. The
  exponent range is not modelled: the numbers below are quotients and products
  of integers under \<open>2\<^sup>3\<^sup>2\<close>, far from overflow and underflow. Only non-negative
  numbers occur.
\<close>

definition ilog2 :: "rat \<Rightarrow> int" where
  "ilog2 x =
     (let (p, q) = quotient_of x; d = bitlen p - bitlen q
      in if 2 powi d \<le> x then d else d - 1)"

definition rne :: "rat \<Rightarrow> int" where
  "rne y =
     (let f = \<lfloor>y\<rfloor>; d = y - of_int f
      in if d < 1 / 2 then f
         else if 1 / 2 < d then f + 1
         else if even f then f else f + 1)"

definition fl :: "rat \<Rightarrow> rat" where
  "fl x =
     (if x \<le> 0 then 0
      else let u = 2 powi (ilog2 x - 52) in of_int (rne (x / u)) * u)"

text \<open>\<^verbatim>\<open>Math.round\<close>: the nearest integer, the larger one at a tie.\<close>

definition jsround :: "rat \<Rightarrow> int" where
  "jsround y = \<lfloor>y + 1 / 2\<rfloor>"

text \<open>\<^verbatim>\<open>Math.min(1, maxSide / Math.max(width, height))\<close>, for positive
  dimensions.\<close>

definition scaleOf :: "nat \<Rightarrow> nat \<Rightarrow> nat \<Rightarrow> rat" where
  "scaleOf maxSide width height =
     min 1 (fl (of_nat maxSide / of_nat (max width height)))"

text \<open>\<^verbatim>\<open>Math.max(1, Math.round(side * scale))\<close>\<close>

definition targetSide :: "nat \<Rightarrow> rat \<Rightarrow> nat" where
  "targetSide side scale = nat (max 1 (jsround (fl (of_nat side * scale))))"

text \<open>
  What the browser does during one run of \<^verbatim>\<open>downscaleImage\<close>: the outcome of
  fetching and decoding (a rejection, or the bitmap's width and height, which
  are \<^verbatim>\<open>unsigned long\<close>), whether \<^verbatim>\<open>OffscreenCanvas\<close> exists, whether
  \<^verbatim>\<open>getContext('2d')\<close> yields a context, and what the two encoders give for a
  raster of a given width and height, MIME type and quality.
\<close>

record downscale_env =
  decoded :: "js_error + 32 word \<times> 32 word"
  hasOffscreenCanvas :: bool
  context2d :: bool
  convertToBlob :: "nat \<Rightarrow> nat \<Rightarrow> string \<Rightarrow> rat \<Rightarrow> js_error + blob"
  toBlob :: "nat \<Rightarrow> nat \<Rightarrow> string \<Rightarrow> rat \<Rightarrow> blob option"

definition typeError :: js_error where
  "typeError = JsError (Some ''TypeError'') (Some ''Cannot set properties of null'')"

definition invalidStateError :: js_error where
  "invalidStateError = JsError (Some ''InvalidStateError'') (Some ''The source image could not be decoded.'')"

text \<open>
  Lines 35-56 (62-83 of the monolith): draw into a raster of
  \<open>targetW \<times> targetH\<close> pixels and encode it. The non-null assertion on the
  context fails at the next line when there is no context; \<^verbatim>\<open>toBlob\<close> may hand
  over \<^verbatim>\<open>null\<close>, and then \<^verbatim>\<open>b || file\<close> is the file.
\<close>

definition renderRaster ::
  "blob \<Rightarrow> nat \<Rightarrow> nat \<Rightarrow> string \<Rightarrow> rat \<Rightarrow> downscale_env \<Rightarrow> js_error + blob" where
  "renderRaster file targetW targetH mime quality env =
     (if hasOffscreenCanvas env then
        (if context2d env then convertToBlob env targetW targetH mime quality
         else Inl typeError)
      else
        (if context2d env then
           Inr (case toBlob env targetW targetH mime quality of None \<Rightarrow> file | Some b \<Rightarrow> b)
         else Inl typeError))"

text \<open>
  \<^verbatim>\<open>downscaleImage\<close> between creating its object URL and revoking it (the
  \<^verbatim>\<open>try\<close> block). \<open>maxSide\<close> is a whole number of pixels (the only call
  passes the default 1536). A bitmap has positive dimensions
  (\<^verbatim>\<open>createImageBitmap\<close> yields no other); the quotient in \<open>scaleOf\<close> is
  JavaScript's for those, and the properties below are stated for them.
\<close>

definition downscaleImage ::
  "blob \<Rightarrow> nat \<Rightarrow> string \<Rightarrow> rat \<Rightarrow> downscale_env \<Rightarrow> js_error + blob" where
  "downscaleImage file maxSide mime quality env =
     (case decoded env of
        Inl e \<Rightarrow> Inl e
      | Inr (w, h) \<Rightarrow>
          let width = unat w; height = unat h;
              scale = scaleOf maxSide width height
          in if scale = 1 then Inr file
             else renderRaster file (targetSide width scale) (targetSide height scale)
                    mime quality env)"

text \<open>The call \<^verbatim>\<open>downscaleImage(file)\<close> with its default arguments.\<close>

definition downscaleDefault :: "blob \<Rightarrow> downscale_env \<Rightarrow> js_error + blob" where
  "downscaleDefault file env = downscaleImage file 1536 ''image/webp'' (92 / 100) env"

section \<open>The upload handlers\<close>

text \<open>
  The accepted path up to the first await, the same statements in both
  variants (139-146 of the monolith, 103-110 of the component): create the
  preview URL, set the signal, and enter \<^verbatim>\<open>downscaleImage\<close>, whose first
  statement creates a second object URL before it awaits the fetch.
\<close>

definition beginUpload :: "blob \<Rightarrow> page \<Rightarrow> page" where
  "beginUpload file s =
     (let (objectUrl, s1) = createObjectURL s;
          s2 = setImagePreviewUrl (Some objectUrl) s1;
          (url, s3) = createObjectURL s2
      in s3\<lparr>awaitingDownscale := awaitingDownscale s3 @ [(file, url)]\<rparr>)"

text \<open>\<^verbatim>\<open>handleFiles\<close> of the monolith (lines 121-146).\<close>

definition mono_handleFiles :: "blob list option \<Rightarrow> page \<Rightarrow> page" where
  "mono_handleFiles files s =
     (case firstFile files of
        None \<Rightarrow> s
      | Some file \<Rightarrow>
          let s1 = s\<lparr>error := [], result := []\<rparr>
          in if \<not> prefix ''image/'' (type file) then
               s1\<lparr>error := ''Please upload an image file (JPEG/PNG/WebP).''\<rparr>
             else if MAX_BYTES < size_b file then s1\<lparr>error := tooLargeMessage\<rparr>
             else beginUpload file s1)"

text \<open>\<^verbatim>\<open>handleFiles\<close> of \<^verbatim>\<open>components/SudokuUploader.tsx\<close> (lines 88-110).\<close>

definition uploader_handleFiles :: "blob list option \<Rightarrow> page \<Rightarrow> page" where
  "uploader_handleFiles files s =
     (case firstFile files of
        None \<Rightarrow> s
      | Some file \<Rightarrow>
          if \<not> prefix ''image/'' (type file) then s
          else if MAX_BYTES < size_b file then s
          else beginUpload file s)"

text \<open>The \<^verbatim>\<open>catch\<close> around the downscale: \<^verbatim>\<open>toProcess\<close> stays the file and a
  warning is logged.\<close>

definition chooseBlob :: "blob \<Rightarrow> js_error + blob \<Rightarrow> page \<Rightarrow> blob \<times> page" where
  "chooseBlob file r s =
     (case r of
        Inr b \<Rightarrow> (b, s)
      | Inl e \<Rightarrow>
          (file, s\<lparr>warnings := warnings s @ [(''Downscale failed, using original file'', e)]\<rparr>))"

text \<open>The monolith after the downscale has settled (lines 147-162).\<close>

definition mono_afterDownscale :: "blob \<Rightarrow> js_error + blob \<Rightarrow> page \<Rightarrow> page" where
  "mono_afterDownscale file r s =
     (let (toProcess, s1) = chooseBlob file r s in submitJob toProcess s1)"

text \<open>The component after the downscale has settled (lines 111-116);
  \<open>onImage\<close> is the optional prop.\<close>

definition uploader_afterDownscale ::
  "(blob \<Rightarrow> page \<Rightarrow> page) option \<Rightarrow> blob \<Rightarrow> js_error + blob \<Rightarrow> page \<Rightarrow> page" where
  "uploader_afterDownscale onImage file r s =
     (let (toProcess, s1) = chooseBlob file r s
      in case onImage of None \<Rightarrow> s1 | Some f \<Rightarrow> f toProcess s1)"

text \<open>The \<^verbatim>\<open>onCleanup\<close> callbacks: the monolith also aborts the job in flight
  (line 228).\<close>

definition mono_cleanup :: "page \<Rightarrow> page" where
  "mono_cleanup s = abortCurrent (cleanupPreview s)"

definition uploader_cleanup :: "page \<Rightarrow> page" where
  "uploader_cleanup s = cleanupPreview s"

section \<open>The page as a transition system\<close>

text \<open>
  What the event loop can deliver: files from the picker, a drop or a paste;
  the end of the \<open>k\<close>-th suspended downscale, with what the browser did; the
  passing of \<open>d\<close> milliseconds; the run of the timeout callback of job \<open>j\<close>'s
  call; the resumption of job \<open>j\<close>'s handler after its call has settled; and
  the disposal of the component, which happens once. The downscale's
  \<^verbatim>\<open>finally\<close> revokes its object URL before the handler resumes. A handler
  resumes in a microtask after the promise it awaits settles; the model lets
  it resume at any later point, which covers every order the browser can
  choose.
\<close>

datatype event =
  Files "blob list option"
| DownscaleDone nat downscale_env
| Tick nat
| Timeout nat
| Deliver nat
| Unmount

definition resumeDownscale ::
  "(blob \<Rightarrow> js_error + blob \<Rightarrow> page \<Rightarrow> page) \<Rightarrow> nat \<Rightarrow> downscale_env \<Rightarrow> page \<Rightarrow> page" where
  "resumeDownscale continue k env s =
     (if k < length (awaitingDownscale s) then
        let (file, url) = awaitingDownscale s ! k;
            s1 = s\<lparr>awaitingDownscale := take k (awaitingDownscale s) @ drop (Suc k) (awaitingDownscale s)\<rparr>;
            r = downscaleDefault file env;
            s2 = revokeObjectURL url s1
        in continue file r s2
      else s)"

definition elapse :: "nat \<Rightarrow> page \<Rightarrow> page" where
  "elapse d s =
     s\<lparr>now := now s + d,
       inflight := map (\<lambda>(j, a, c). (j, a, stub_step c (Elapse d))) (inflight s)\<rparr>"

definition fireTimer :: "nat \<Rightarrow> page \<Rightarrow> page" where
  "fireTimer j s =
     s\<lparr>inflight :=
         map (\<lambda>(j', a, c). (j', a, if j' = j then stub_step c TimerFires else c)) (inflight s)\<rparr>"

text \<open>How the call of job \<open>j\<close> has settled, if it has.\<close>

definition settledAs :: "nat \<Rightarrow> page \<Rightarrow> string settled option" where
  "settledAs j s =
     (case find (\<lambda>(j', a, c). j' = j) (inflight s) of
        None \<Rightarrow> None
      | Some (j', a, c) \<Rightarrow> outcome c)"

definition resumeProcess :: "nat \<Rightarrow> page \<Rightarrow> page" where
  "resumeProcess j s =
     (if j \<in> set (awaitingProcess s) then
        (case settledAs j s of
           None \<Rightarrow> s
         | Some r \<Rightarrow> afterProcess j r (s\<lparr>awaitingProcess := removeAll j (awaitingProcess s)\<rparr>))
      else s)"

fun mono_step :: "page \<Rightarrow> event \<Rightarrow> page" where
  "mono_step s (Files files) = mono_handleFiles files s"
| "mono_step s (DownscaleDone k env) = resumeDownscale mono_afterDownscale k env s"
| "mono_step s (Tick d) = elapse d s"
| "mono_step s (Timeout j) = fireTimer j s"
| "mono_step s (Deliver j) = resumeProcess j s"
| "mono_step s Unmount = (if mounted s then (mono_cleanup s)\<lparr>mounted := False\<rparr> else s)"

text \<open>The split page: \<^verbatim>\<open>Sudoku\<close> renders the uploader with
  \<^verbatim>\<open>onImage={handleImage}\<close>.\<close>

fun split_step :: "page \<Rightarrow> event \<Rightarrow> page" where
  "split_step s (Files files) = uploader_handleFiles files s"
| "split_step s (DownscaleDone k env) =
     resumeDownscale (uploader_afterDownscale (Some handleImage)) k env s"
| "split_step s (Tick d) = elapse d s"
| "split_step s (Timeout j) = fireTimer j s"
| "split_step s (Deliver j) = resumeProcess j s"
| "split_step s Unmount = (if mounted s then (uploader_cleanup s)\<lparr>mounted := False\<rparr> else s)"

definition mono_run :: "event list \<Rightarrow> page" where
  "mono_run evs = foldl mono_step initial evs"

definition split_run :: "event list \<Rightarrow> page" where
  "split_run evs = foldl split_step initial evs"

section \<open>Auxiliary predicates and sample inputs\<close>

text \<open>
  The three grounds on which acquisition turns a candidate down: no file, a
  MIME type that does not begin with \<^verbatim>\<open>image/\<close>, more than 10 MiB.
\<close>

definition refused :: "blob list option \<Rightarrow> bool" where
  "refused files =
     (case firstFile files of
        None \<Rightarrow> True
      | Some file \<Rightarrow> \<not> prefix ''image/'' (type file) \<or> MAX_BYTES < size_b file)"

text \<open>Reading a string of decimal digits back, most significant digit first.\<close>

definition readDecimal :: "string \<Rightarrow> nat" where
  "readDecimal ds = foldl (\<lambda>n d. 10 * n + (of_char d - 48)) 0 ds"

text \<open>
  Invariants of a stub call. While no abort arrives, the call either still
  waits with its timeout armed for \<open>due\<close>, or it has been resolved and the clock
  has reached \<open>due\<close>. A call that was given a signal not yet aborted keeps
  \<^verbatim>\<open>onAbort\<close> listening for as long as its promise is pending. And a call is
  pending, resolved, or rejected with the \<^verbatim>\<open>AbortError\<close>, never anything else.
\<close>

definition waiting :: "nat \<Rightarrow> stub_call \<Rightarrow> bool" where
  "waiting due c \<longleftrightarrow>
     (promise c = None \<and> timer c = Some due) \<or>
     (promise c = Some (Resolved ()) \<and> due \<le> clock c)"

definition armed :: "stub_call \<Rightarrow> bool" where
  "armed c \<longleftrightarrow> (promise c = None \<longrightarrow> signal c = Some False \<and> listening c)"

definition abortOnly :: "stub_call \<Rightarrow> bool" where
  "abortOnly c \<longleftrightarrow>
     promise c = None \<or> promise c = Some (Resolved ()) \<or>
     promise c = Some (Rejected abortError)"

text \<open>
  The invariant of the preview manager in a mounted component. The URLs the
  signal has held are distinct and were all handed out by the browser; so were
  the revoked ones; the object URLs of the suspended downscales are distinct,
  were never shown and are not revoked yet; the signal holds the last URL shown
  and the effect remembers it; and each URL shown has been revoked once, except
  the one on display, which has not been revoked.
\<close>

definition previewOk :: "page \<Rightarrow> bool" where
  "previewOk s \<longleftrightarrow>
     mounted s \<and>
     distinct (shown s) \<and>
     (\<forall>u \<in> set (shown s). u < nextUrl s) \<and>
     (\<forall>u \<in> set (revoked s). u < nextUrl s) \<and>
     distinct (map snd (awaitingDownscale s)) \<and>
     (\<forall>u \<in> snd ` set (awaitingDownscale s).
        u < nextUrl s \<and> u \<notin> set (shown s) \<and> u \<notin> set (revoked s)) \<and>
     imagePreviewUrl s = (if shown s = [] then None else Some (last (shown s))) \<and>
     effectPrev s = imagePreviewUrl s \<and>
     (\<forall>u \<in> set (shown s).
        count_list (revoked s) u = (if imagePreviewUrl s = Some u then 0 else 1))"

text \<open>The fields the invariant reads.\<close>

definition previewPart ::
  "page \<Rightarrow> url option \<times> url option \<times> nat \<times> url list \<times> bool \<times> url list \<times> (blob \<times> url) list" where
  "previewPart s =
     (imagePreviewUrl s, effectPrev s, nextUrl s, revoked s, mounted s, shown s,
      awaitingDownscale s)"

text \<open>An object URL that the disposed component can no longer revoke: it was
  handed out, is not revoked, and is not the URL of a suspended downscale.\<close>

definition stranded :: "url \<Rightarrow> page \<Rightarrow> bool" where
  "stranded u s \<longleftrightarrow>
     \<not> mounted s \<and> u < nextUrl s \<and> u \<notin> set (revoked s) \<and>
     u \<notin> snd ` set (awaitingDownscale s)"

text \<open>Sample inputs for the worked instances below.\<close>

definition pngFile :: blob where
  "pngFile = \<lparr>blobId = 1, type = ''image/png'', size_b = 2048\<rparr>"

definition jpegFile :: blob where
  "jpegFile = \<lparr>blobId = 2, type = ''image/jpeg'', size_b = 4096\<rparr>"

definition hugeFile :: blob where
  "hugeFile = \<lparr>blobId = 3, type = ''image/png'', size_b = 10485761\<rparr>"

definition textFile :: blob where
  "textFile = \<lparr>blobId = 4, type = ''text/plain'', size_b = 12\<rparr>"

text \<open>Two accepted uploads in a row, each followed by the end of its
  downscale, under a browser \<open>env\<close>: two jobs are submitted, and the first is
  cancelled by the second.\<close>

definition twoUploads :: "downscale_env \<Rightarrow> event list" where
  "twoUploads env =
     [Files (Some [pngFile]), DownscaleDone 0 env, Files (Some [jpegFile]), DownscaleDone 0 env]"

text \<open>A file is chosen, the component is disposed, and a second file reaches
  the handler afterwards (the file dialog was still open, or a drop was under
  way).\<close>

definition lateFile :: "event list" where
  "lateFile = [Files (Some [pngFile]), Unmount, Files (Some [jpegFile])]"

text \<open>A browser that cannot decode the image.\<close>

definition undecodable :: downscale_env where
  "undecodable =
     \<lparr> decoded = Inl invalidStateError, hasOffscreenCanvas = True, context2d = True,
       convertToBlob = (\<lambda>w h m q. Inl typeError), toBlob = (\<lambda>w h m q. None) \<rparr>"

text \<open>A browser that decodes a bitmap of the given size and encodes a raster
  of \<open>w \<times> h\<close> pixels into a blob of \<open>w * h\<close> bytes.\<close>

definition decoding :: "32 word \<Rightarrow> 32 word \<Rightarrow> downscale_env" where
  "decoding w h =
     \<lparr> decoded = Inr (w, h), hasOffscreenCanvas = True, context2d = True,
       convertToBlob = (\<lambda>tw th m q. Inr \<lparr>blobId = 9, type = m, size_b = tw * th\<rparr>),
       toBlob = (\<lambda>tw th m q. None) \<rparr>"

section \<open>Helper facts: printing and field access\<close>

lemma show_nat_small: "n < 10 \<Longrightarrow> show_nat n = [''0123456789'' ! n]"
  by (simp add: show_nat.simps [of n])

lemma show_nat_big:
  "10 \<le> n \<Longrightarrow> show_nat n = show_nat (n div 10) @ [''0123456789'' ! (n mod 10)]"
  by (simp add: show_nat.simps [of n])

lemma toFixed0_of_nat: "toFixed0 (of_nat n) = show_nat n"
proof -
  have "\<lfloor>(of_nat n :: rat) + 1 / 2\<rfloor> = int n"
    by (rule floor_unique) simp_all
  then show ?thesis by (simp add: toFixed0_def)
qed

lemma tooLargeMessage_eq: "tooLargeMessage = ''File is too large (> 10 MB).''"
proof -
  have "(of_nat MAX_BYTES :: rat) / (1024 * 1024) = of_nat 10"
    by (simp add: MAX_BYTES_def)
  then have "toFixed0 (of_nat MAX_BYTES / (1024 * 1024)) = show_nat 10"
    by (simp only: toFixed0_of_nat)
  also have "\<dots> = ''10''" by (simp add: show_nat_small show_nat_big)
  finally show ?thesis by (simp add: tooLargeMessage_def)
qed

lemma submitJob_fields:
  "error (submitJob b s) = error s"
  "result (submitJob b s) = result s"
  "currentJob (submitJob b s) = currentJob s + 1"
  "isProcessing (submitJob b s) = True"
  "warnings (submitJob b s) = warnings s"
  "processCalls (submitJob b s) = processCalls s @ [(b, nextController s, currentJob s + 1)]"
  by (simp_all add: submitJob_def abortCurrent_def Let_def split: option.split)

lemma handleImage_fields:
  "error (handleImage b s) = []"
  "result (handleImage b s) = []"
  "currentJob (handleImage b s) = currentJob s + 1"
  "isProcessing (handleImage b s) = True"
  "warnings (handleImage b s) = warnings s"
  "processCalls (handleImage b s) = processCalls s @ [(b, nextController s, currentJob s + 1)]"
  by (simp_all add: handleImage_def submitJob_fields)

lemma chooseBlob_fields:
  "fst (chooseBlob file (Inl e) s) = file"
  "fst (chooseBlob file (Inr b) s) = b"
  "error (snd (chooseBlob file r s)) = error s"
  "result (snd (chooseBlob file r s)) = result s"
  "currentJob (snd (chooseBlob file r s)) = currentJob s"
  "nextController (snd (chooseBlob file r s)) = nextController s"
  "processCalls (snd (chooseBlob file r s)) = processCalls s"
  "warnings (snd (chooseBlob file (Inl e) s)) =
     warnings s @ [(''Downscale failed, using original file'', e)]"
  "warnings (snd (chooseBlob file (Inr b) s)) = warnings s"
  by (simp_all add: chooseBlob_def split: sum.split)

lemma mono_afterDownscale_alt:
  "mono_afterDownscale file r s =
     submitJob (fst (chooseBlob file r s)) (snd (chooseBlob file r s))"
  by (simp add: mono_afterDownscale_def split: prod.split)

lemma uploader_afterDownscale_alt:
  "uploader_afterDownscale (Some f) file r s =
     f (fst (chooseBlob file r s)) (snd (chooseBlob file r s))"
  by (simp add: uploader_afterDownscale_def split: prod.split)

lemma mono_afterDownscale_fields:
  "error (mono_afterDownscale file r s) = error s"
  "result (mono_afterDownscale file r s) = result s"
  "currentJob (mono_afterDownscale file r s) = currentJob s + 1"
  "isProcessing (mono_afterDownscale file r s) = True"
  by (simp_all add: mono_afterDownscale_alt submitJob_fields chooseBlob_fields)

lemma beginUpload_fields:
  "nextUrl (beginUpload file s) = nextUrl s + 2"
  "error (beginUpload file s) = error s"
  "result (beginUpload file s) = result s"
  "processCalls (beginUpload file s) = processCalls s"
  "currentJob (beginUpload file s) = currentJob s"
  "nextController (beginUpload file s) = nextController s"
  "warnings (beginUpload file s) = warnings s"
  "awaitingDownscale (beginUpload file s) = awaitingDownscale s @ [(file, nextUrl s + 1)]"
  "imagePreviewUrl (beginUpload file s) = Some (nextUrl s)"
  by (simp_all add: beginUpload_def createObjectURL_def setImagePreviewUrl_def
      revokeObjectURL_def Let_def split: option.split)

lemma resumeDownscale_at:
  "k < length (awaitingDownscale s) \<Longrightarrow> awaitingDownscale s ! k = (file, url) \<Longrightarrow>
   resumeDownscale continue k env s =
     continue file (downscaleDefault file env)
       (revokeObjectURL url
          (s\<lparr>awaitingDownscale := take k (awaitingDownscale s) @ drop (Suc k) (awaitingDownscale s)\<rparr>))"
  by (simp add: resumeDownscale_def Let_def)

lemma beginUpload_more:
  "mounted (beginUpload f s) = mounted s"
  "awaitingProcess (beginUpload f s) = awaitingProcess s"
  by (simp_all add: beginUpload_def createObjectURL_def setImagePreviewUrl_def
      revokeObjectURL_def Let_def split: option.split)

lemma abortCurrent_inflight:
  "inflight (abortCurrent s) =
     map (\<lambda>(j, a, c). (j, a, if currentAbort s = Some a then stub_step c SignalAbort else c))
       (inflight s)"
  by (cases "currentAbort s") (auto simp add: abortCurrent_def)

lemma submitJob_more:
  "mounted (submitJob b s) = mounted s"
  "awaitingDownscale (submitJob b s) = awaitingDownscale s"
  "awaitingProcess (submitJob b s) = awaitingProcess s @ [currentJob s + 1]"
  "now (submitJob b s) = now s"
  "currentAbort (submitJob b s) = Some (nextController s)"
  "nextController (submitJob b s) = nextController s + 1"
  by (simp_all add: submitJob_def abortCurrent_def Let_def split: option.split)

lemma submitJob_inflight:
  "inflight (submitJob b s) =
     inflight (abortCurrent s) @
       [(currentJob s + 1, nextController s,
         processImageInWasm b (Some False) (currentJob s + 1) (now s))]"
  by (simp add: submitJob_def abortCurrent_def Let_def split: option.split)

lemma chooseBlob_more:
  "mounted (snd (chooseBlob f r s)) = mounted s"
  "awaitingDownscale (snd (chooseBlob f r s)) = awaitingDownscale s"
  "awaitingProcess (snd (chooseBlob f r s)) = awaitingProcess s"
  by (simp_all add: chooseBlob_def split: sum.split)

text \<open>What one accepted upload followed by the end of its downscale does to the
  fields the sequencer reads, when no other downscale is suspended.\<close>

lemma mono_upload_round:
  assumes "mounted s" and "awaitingDownscale s = []"
    and "prefix ''image/'' (type f)" and "size_b f \<le> MAX_BYTES"
  shows "mounted (mono_step (mono_step s (Files (Some [f]))) (DownscaleDone 0 env))"
    and "awaitingDownscale (mono_step (mono_step s (Files (Some [f]))) (DownscaleDone 0 env)) = []"
    and "currentJob (mono_step (mono_step s (Files (Some [f]))) (DownscaleDone 0 env)) = currentJob s + 1"
    and "awaitingProcess (mono_step (mono_step s (Files (Some [f]))) (DownscaleDone 0 env)) =
           awaitingProcess s @ [currentJob s + 1]"
    and "error (mono_step (mono_step s (Files (Some [f]))) (DownscaleDone 0 env)) = []"
proof -
  define s1 where "s1 = mono_step s (Files (Some [f]))"
  have s1: "s1 = beginUpload f (s\<lparr>error := [], result := []\<rparr>)"
    using assms by (simp add: s1_def mono_handleFiles_def firstFile_def Let_def)
  have a: "0 < length (awaitingDownscale s1)"
    "awaitingDownscale s1 ! 0 = (f, nextUrl s + 1)"
    using assms(2) by (simp_all add: s1 beginUpload_fields)
  define s2 where "s2 = revokeObjectURL (nextUrl s + 1)
     (s1\<lparr>awaitingDownscale := take 0 (awaitingDownscale s1) @ drop (Suc 0) (awaitingDownscale s1)\<rparr>)"
  have step: "mono_step s1 (DownscaleDone 0 env) = mono_afterDownscale f (downscaleDefault f env) s2"
    by (simp add: resumeDownscale_at [OF a] s2_def)
  have f2: "mounted s2" "awaitingDownscale s2 = []" "currentJob s2 = currentJob s"
    "awaitingProcess s2 = awaitingProcess s" "error s2 = []"
    using assms(1,2)
    by (simp_all add: s2_def revokeObjectURL_def s1 beginUpload_fields beginUpload_more)
  show "mounted (mono_step (mono_step s (Files (Some [f]))) (DownscaleDone 0 env))"
    and "awaitingDownscale (mono_step (mono_step s (Files (Some [f]))) (DownscaleDone 0 env)) = []"
    and "currentJob (mono_step (mono_step s (Files (Some [f]))) (DownscaleDone 0 env)) = currentJob s + 1"
    and "awaitingProcess (mono_step (mono_step s (Files (Some [f]))) (DownscaleDone 0 env)) =
           awaitingProcess s @ [currentJob s + 1]"
    and "error (mono_step (mono_step s (Files (Some [f]))) (DownscaleDone 0 env)) = []"
    unfolding s1_def [symmetric] step
    by (simp_all add: mono_afterDownscale_alt submitJob_fields submitJob_more
        chooseBlob_fields chooseBlob_more f2)
qed

lemma split_upload_round:
  assumes "mounted s" and "awaitingDownscale s = []"
    and "prefix ''image/'' (type f)" and "size_b f \<le> MAX_BYTES"
  shows "mounted (split_step (split_step s (Files (Some [f]))) (DownscaleDone 0 env))"
    and "awaitingDownscale (split_step (split_step s (Files (Some [f]))) (DownscaleDone 0 env)) = []"
    and "currentJob (split_step (split_step s (Files (Some [f]))) (DownscaleDone 0 env)) = currentJob s + 1"
    and "awaitingProcess (split_step (split_step s (Files (Some [f]))) (DownscaleDone 0 env)) =
           awaitingProcess s @ [currentJob s + 1]"
    and "error (split_step (split_step s (Files (Some [f]))) (DownscaleDone 0 env)) = []"
proof -
  define s1 where "s1 = split_step s (Files (Some [f]))"
  have s1: "s1 = beginUpload f s"
    using assms by (simp add: s1_def uploader_handleFiles_def firstFile_def)
  have a: "0 < length (awaitingDownscale s1)"
    "awaitingDownscale s1 ! 0 = (f, nextUrl s + 1)"
    using assms(2) by (simp_all add: s1 beginUpload_fields)
  define s2 where "s2 = revokeObjectURL (nextUrl s + 1)
     (s1\<lparr>awaitingDownscale := take 0 (awaitingDownscale s1) @ drop (Suc 0) (awaitingDownscale s1)\<rparr>)"
  have step: "split_step s1 (DownscaleDone 0 env) =
      uploader_afterDownscale (Some handleImage) f (downscaleDefault f env) s2"
    by (simp add: resumeDownscale_at [OF a] s2_def)
  have f2: "mounted s2" "awaitingDownscale s2 = []" "currentJob s2 = currentJob s"
    "awaitingProcess s2 = awaitingProcess s"
    using assms(1,2)
    by (simp_all add: s2_def revokeObjectURL_def s1 beginUpload_fields beginUpload_more)
  show "mounted (split_step (split_step s (Files (Some [f]))) (DownscaleDone 0 env))"
    and "awaitingDownscale (split_step (split_step s (Files (Some [f]))) (DownscaleDone 0 env)) = []"
    and "currentJob (split_step (split_step s (Files (Some [f]))) (DownscaleDone 0 env)) = currentJob s + 1"
    and "awaitingProcess (split_step (split_step s (Files (Some [f]))) (DownscaleDone 0 env)) =
           awaitingProcess s @ [currentJob s + 1]"
    and "error (split_step (split_step s (Files (Some [f]))) (DownscaleDone 0 env)) = []"
    unfolding s1_def [symmetric] step
    by (simp_all add: uploader_afterDownscale_alt handleImage_def submitJob_fields submitJob_more
        chooseBlob_fields chooseBlob_more f2)
qed

lemma seq_frame:
  "inflight (beginUpload f s) = inflight s"
  "currentAbort (beginUpload f s) = currentAbort s"
  "nextController (beginUpload f s) = nextController s"
  "now (beginUpload f s) = now s"
  "currentJob (beginUpload f s) = currentJob s"
  "inflight (snd (chooseBlob f r s)) = inflight s"
  "currentAbort (snd (chooseBlob f r s)) = currentAbort s"
  "nextController (snd (chooseBlob f r s)) = nextController s"
  "now (snd (chooseBlob f r s)) = now s"
  "currentJob (snd (chooseBlob f r s)) = currentJob s"
  "inflight (revokeObjectURL u s) = inflight s"
  "currentAbort (revokeObjectURL u s) = currentAbort s"
  "nextController (revokeObjectURL u s) = nextController s"
  "now (revokeObjectURL u s) = now s"
  "currentJob (revokeObjectURL u s) = currentJob s"
  by (simp_all add: beginUpload_def createObjectURL_def setImagePreviewUrl_def
      revokeObjectURL_def chooseBlob_def Let_def split: option.split sum.split)

lemma mono_upload_round_calls:
  assumes "mounted s" and "awaitingDownscale s = []"
    and "prefix ''image/'' (type f)" and "size_b f \<le> MAX_BYTES"
  shows "\<exists>b. inflight (mono_step (mono_step s (Files (Some [f]))) (DownscaleDone 0 env)) =
           map (\<lambda>(j, a, c). (j, a, if currentAbort s = Some a then stub_step c SignalAbort else c))
             (inflight s) @
           [(currentJob s + 1, nextController s,
             processImageInWasm b (Some False) (currentJob s + 1) (now s))]"
    and "currentAbort (mono_step (mono_step s (Files (Some [f]))) (DownscaleDone 0 env)) =
           Some (nextController s)"
    and "nextController (mono_step (mono_step s (Files (Some [f]))) (DownscaleDone 0 env)) =
           nextController s + 1"
    and "now (mono_step (mono_step s (Files (Some [f]))) (DownscaleDone 0 env)) = now s"
proof -
  define s1 where "s1 = mono_step s (Files (Some [f]))"
  have s1: "s1 = beginUpload f (s\<lparr>error := [], result := []\<rparr>)"
    using assms by (simp add: s1_def mono_handleFiles_def firstFile_def Let_def)
  have a: "0 < length (awaitingDownscale s1)"
    "awaitingDownscale s1 ! 0 = (f, nextUrl s + 1)"
    using assms(2) by (simp_all add: s1 beginUpload_fields)
  define s2 where "s2 = revokeObjectURL (nextUrl s + 1)
     (s1\<lparr>awaitingDownscale := take 0 (awaitingDownscale s1) @ drop (Suc 0) (awaitingDownscale s1)\<rparr>)"
  define s3 where "s3 = (snd (chooseBlob f (downscaleDefault f env) s2))"
  define b where "b = fst (chooseBlob f (downscaleDefault f env) s2)"
  have step: "mono_step s1 (DownscaleDone 0 env) = submitJob b s3"
    by (simp add: resumeDownscale_at [OF a] s2_def s3_def b_def mono_afterDownscale_alt)
  have f3: "inflight s3 = inflight s" "currentAbort s3 = currentAbort s"
    "nextController s3 = nextController s" "now s3 = now s" "currentJob s3 = currentJob s"
    by (simp_all add: s3_def s2_def s1 seq_frame)
  show "\<exists>b. inflight (mono_step (mono_step s (Files (Some [f]))) (DownscaleDone 0 env)) =
           map (\<lambda>(j, a, c). (j, a, if currentAbort s = Some a then stub_step c SignalAbort else c))
             (inflight s) @
           [(currentJob s + 1, nextController s,
             processImageInWasm b (Some False) (currentJob s + 1) (now s))]"
    unfolding s1_def [symmetric] step submitJob_inflight abortCurrent_inflight f3 by blast
  show "currentAbort (mono_step (mono_step s (Files (Some [f]))) (DownscaleDone 0 env)) =
           Some (nextController s)"
    and "nextController (mono_step (mono_step s (Files (Some [f]))) (DownscaleDone 0 env)) =
           nextController s + 1"
    and "now (mono_step (mono_step s (Files (Some [f]))) (DownscaleDone 0 env)) = now s"
    unfolding s1_def [symmetric] step by (simp_all add: submitJob_more f3)
qed

lemma split_upload_round_calls:
  assumes "mounted s" and "awaitingDownscale s = []"
    and "prefix ''image/'' (type f)" and "size_b f \<le> MAX_BYTES"
  shows "\<exists>b. inflight (split_step (split_step s (Files (Some [f]))) (DownscaleDone 0 env)) =
           map (\<lambda>(j, a, c). (j, a, if currentAbort s = Some a then stub_step c SignalAbort else c))
             (inflight s) @
           [(currentJob s + 1, nextController s,
             processImageInWasm b (Some False) (currentJob s + 1) (now s))]"
    and "currentAbort (split_step (split_step s (Files (Some [f]))) (DownscaleDone 0 env)) =
           Some (nextController s)"
    and "nextController (split_step (split_step s (Files (Some [f]))) (DownscaleDone 0 env)) =
           nextController s + 1"
    and "now (split_step (split_step s (Files (Some [f]))) (DownscaleDone 0 env)) = now s"
proof -
  define s1 where "s1 = split_step s (Files (Some [f]))"
  have s1: "s1 = beginUpload f (s)"
    using assms by (simp add: s1_def uploader_handleFiles_def firstFile_def Let_def)
  have a: "0 < length (awaitingDownscale s1)"
    "awaitingDownscale s1 ! 0 = (f, nextUrl s + 1)"
    using assms(2) by (simp_all add: s1 beginUpload_fields)
  define s2 where "s2 = revokeObjectURL (nextUrl s + 1)
     (s1\<lparr>awaitingDownscale := take 0 (awaitingDownscale s1) @ drop (Suc 0) (awaitingDownscale s1)\<rparr>)"
  define s3 where "s3 = (\<lambda>t. t\<lparr>error := [], result := []\<rparr>) (snd (chooseBlob f (downscaleDefault f env) s2))"
  define b where "b = fst (chooseBlob f (downscaleDefault f env) s2)"
  have step: "split_step s1 (DownscaleDone 0 env) = submitJob b s3"
    by (simp add: resumeDownscale_at [OF a] s2_def s3_def b_def uploader_afterDownscale_alt handleImage_def)
  have f3: "inflight s3 = inflight s" "currentAbort s3 = currentAbort s"
    "nextController s3 = nextController s" "now s3 = now s" "currentJob s3 = currentJob s"
    by (simp_all add: s3_def s2_def s1 seq_frame)
  show "\<exists>b. inflight (split_step (split_step s (Files (Some [f]))) (DownscaleDone 0 env)) =
           map (\<lambda>(j, a, c). (j, a, if currentAbort s = Some a then stub_step c SignalAbort else c))
             (inflight s) @
           [(currentJob s + 1, nextController s,
             processImageInWasm b (Some False) (currentJob s + 1) (now s))]"
    unfolding s1_def [symmetric] step submitJob_inflight abortCurrent_inflight f3 by blast
  show "currentAbort (split_step (split_step s (Files (Some [f]))) (DownscaleDone 0 env)) =
           Some (nextController s)"
    and "nextController (split_step (split_step s (Files (Some [f]))) (DownscaleDone 0 env)) =
           nextController s + 1"
    and "now (split_step (split_step s (Files (Some [f]))) (DownscaleDone 0 env)) = now s"
    unfolding s1_def [symmetric] step by (simp_all add: submitJob_more f3)
qed

lemma outcome_superseded:
  "outcome (stub_step (processImageInWasm b (Some False) j t) SignalAbort) = Some (Rejected abortError)"
  by (simp add: outcome_def processImageInWasm_def onAbort_def settle_def Let_def)

lemma mono_twoUploads_calls:
  "settledAs 1 (mono_run (twoUploads env)) = Some (Rejected abortError)"
proof -
  define a where "a = mono_step (mono_step initial (Files (Some [pngFile]))) (DownscaleDone 0 env)"
  have i: "mounted initial" "awaitingDownscale initial = []"
    "prefix ''image/'' (type pngFile)" "size_b pngFile \<le> MAX_BYTES"
    "prefix ''image/'' (type jpegFile)" "size_b jpegFile \<le> MAX_BYTES"
    by (simp_all add: initial_def pngFile_def jpegFile_def MAX_BYTES_def)
  note A = mono_upload_round [OF i(1,2,3,4), of env, folded a_def]
  note A' = mono_upload_round_calls [OF i(1,2,3,4), of env, folded a_def]
  define b where "b = mono_step (mono_step a (Files (Some [jpegFile]))) (DownscaleDone 0 env)"
  note B' = mono_upload_round_calls [OF A(1,2) i(5,6), of env, folded b_def]
  have run: "mono_run (twoUploads env) = b"
    unfolding mono_run_def twoUploads_def a_def b_def by (simp only: foldl.simps)
  have i0: "currentJob initial = 0" "inflight initial = []" "nextController initial = 0"
    by (simp_all add: initial_def)
  from A'(1) obtain b1 where a1: "inflight a = [(1, 0, processImageInWasm b1 (Some False) 1 (now initial))]"
    by (auto simp: i0)
  have ca: "currentAbort a = Some 0" "currentJob a = 1" by (simp_all add: A' A i0)
  from B'(1) obtain y where "inflight b =
      [(1, 0, stub_step (processImageInWasm b1 (Some False) 1 (now initial)) SignalAbort), y]"
    by (auto simp: a1 ca simp del: stub_step.simps)
  then show ?thesis
    unfolding run settledAs_def by (simp add: outcome_superseded del: stub_step.simps)
qed


lemma split_twoUploads_calls:
  "settledAs 1 (split_run (twoUploads env)) = Some (Rejected abortError)"
proof -
  define a where "a = split_step (split_step initial (Files (Some [pngFile]))) (DownscaleDone 0 env)"
  have i: "mounted initial" "awaitingDownscale initial = []"
    "prefix ''image/'' (type pngFile)" "size_b pngFile \<le> MAX_BYTES"
    "prefix ''image/'' (type jpegFile)" "size_b jpegFile \<le> MAX_BYTES"
    by (simp_all add: initial_def pngFile_def jpegFile_def MAX_BYTES_def)
  note A = split_upload_round [OF i(1,2,3,4), of env, folded a_def]
  note A' = split_upload_round_calls [OF i(1,2,3,4), of env, folded a_def]
  define b where "b = split_step (split_step a (Files (Some [jpegFile]))) (DownscaleDone 0 env)"
  note B' = split_upload_round_calls [OF A(1,2) i(5,6), of env, folded b_def]
  have run: "split_run (twoUploads env) = b"
    unfolding split_run_def twoUploads_def a_def b_def by (simp only: foldl.simps)
  have i0: "currentJob initial = 0" "inflight initial = []" "nextController initial = 0"
    by (simp_all add: initial_def)
  from A'(1) obtain b1 where a1: "inflight a = [(1, 0, processImageInWasm b1 (Some False) 1 (now initial))]"
    by (auto simp: i0)
  have ca: "currentAbort a = Some 0" "currentJob a = 1" by (simp_all add: A' A i0)
  from B'(1) obtain y where "inflight b =
      [(1, 0, stub_step (processImageInWasm b1 (Some False) 1 (now initial)) SignalAbort), y]"
    by (auto simp: a1 ca simp del: stub_step.simps)
  then show ?thesis
    unfolding run settledAs_def by (simp add: outcome_superseded del: stub_step.simps)
qed


lemma mono_twoUploads:
  "currentJob (mono_run (twoUploads env)) = 2"
  "awaitingProcess (mono_run (twoUploads env)) = [1, 2]"
  "error (mono_run (twoUploads env)) = []"
proof -
  define a where "a = mono_step (mono_step initial (Files (Some [pngFile]))) (DownscaleDone 0 env)"
  have i: "mounted initial" "awaitingDownscale initial = []"
    "prefix ''image/'' (type pngFile)" "size_b pngFile \<le> MAX_BYTES"
    "prefix ''image/'' (type jpegFile)" "size_b jpegFile \<le> MAX_BYTES"
    by (simp_all add: initial_def pngFile_def jpegFile_def MAX_BYTES_def)
  note A = mono_upload_round [OF i(1,2,3,4), of env, folded a_def]
  define b where "b = mono_step (mono_step a (Files (Some [jpegFile]))) (DownscaleDone 0 env)"
  note B = mono_upload_round [OF A(1,2) i(5,6), of env, folded b_def]
  have run: "mono_run (twoUploads env) = b"
    unfolding mono_run_def twoUploads_def a_def b_def by (simp only: foldl.simps)
  have "currentJob initial = 0" "awaitingProcess initial = []" by (simp_all add: initial_def)
  then show "currentJob (mono_run (twoUploads env)) = 2"
    "awaitingProcess (mono_run (twoUploads env)) = [1, 2]"
    "error (mono_run (twoUploads env)) = []"
    unfolding run by (simp_all add: A B)
qed

lemma split_twoUploads:
  "currentJob (split_run (twoUploads env)) = 2"
  "awaitingProcess (split_run (twoUploads env)) = [1, 2]"
  "error (split_run (twoUploads env)) = []"
proof -
  define a where "a = split_step (split_step initial (Files (Some [pngFile]))) (DownscaleDone 0 env)"
  have i: "mounted initial" "awaitingDownscale initial = []"
    "prefix ''image/'' (type pngFile)" "size_b pngFile \<le> MAX_BYTES"
    "prefix ''image/'' (type jpegFile)" "size_b jpegFile \<le> MAX_BYTES"
    by (simp_all add: initial_def pngFile_def jpegFile_def MAX_BYTES_def)
  note A = split_upload_round [OF i(1,2,3,4), of env, folded a_def]
  define b where "b = split_step (split_step a (Files (Some [jpegFile]))) (DownscaleDone 0 env)"
  note B = split_upload_round [OF A(1,2) i(5,6), of env, folded b_def]
  have run: "split_run (twoUploads env) = b"
    unfolding split_run_def twoUploads_def a_def b_def by (simp only: foldl.simps)
  have "currentJob initial = 0" "awaitingProcess initial = []" by (simp_all add: initial_def)
  then show "currentJob (split_run (twoUploads env)) = 2"
    "awaitingProcess (split_run (twoUploads env)) = [1, 2]"
    "error (split_run (twoUploads env)) = []"
    unfolding run by (simp_all add: A B)
qed

section \<open>Properties of the processing stub\<close>

lemma settle_promise:
  "promise (settle r c) = (case promise c of None \<Rightarrow> Some r | Some r' \<Rightarrow> Some r')"
  by (simp add: settle_def split: option.split)

lemma settle_fields:
  "jobId_of (settle r c) = jobId_of c" "imageBlob (settle r c) = imageBlob c"
  "clock (settle r c) = clock c" "timer (settle r c) = timer c"
  "signal (settle r c) = signal c" "listening (settle r c) = listening c"
  by (simp_all add: settle_def split: option.split)

lemma stub_step_settled:
  "promise c = Some r \<Longrightarrow> promise (stub_step c e) = Some r"
  by (cases e)
    (auto simp: settle_promise onAbort_def Let_def split: option.split bool.split)

lemma stub_run_settled:
  "promise c = Some r \<Longrightarrow> promise (stub_run c evs) = Some r"
  unfolding stub_run_def
  by (induction evs arbitrary: c) (simp_all add: stub_step_settled)

lemma stub_step_ids:
  "jobId_of (stub_step c e) = jobId_of c \<and> imageBlob (stub_step c e) = imageBlob c"
  by (cases e)
    (auto simp: settle_fields onAbort_def Let_def split: option.split bool.split)

lemma stub_run_ids:
  "jobId_of (stub_run c evs) = jobId_of c \<and> imageBlob (stub_run c evs) = imageBlob c"
  unfolding stub_run_def
  by (induction evs arbitrary: c) (simp_all add: stub_step_ids)

lemma stub_step_waiting:
  "waiting due c \<Longrightarrow> e \<noteq> SignalAbort \<Longrightarrow> waiting due (stub_step c e)"
  by (cases e) (auto simp: waiting_def settle_promise settle_fields split: option.split)

lemma stub_run_waiting:
  "waiting due c \<Longrightarrow> SignalAbort \<notin> set evs \<Longrightarrow> waiting due (stub_run c evs)"
  unfolding stub_run_def
  by (induction evs arbitrary: c) (auto simp: stub_step_waiting)

lemma stub_run_snoc: "stub_run c (evs @ evs') = stub_run (stub_run c evs) evs'"
  by (simp add: stub_run_def)

lemma stub_step_armed: "armed c \<Longrightarrow> armed (stub_step c e)"
  by (cases e)
    (auto simp: armed_def settle_promise settle_fields onAbort_def Let_def
       split: option.split bool.split)

lemma stub_run_armed: "armed c \<Longrightarrow> armed (stub_run c evs)"
  unfolding stub_run_def
  by (induction evs arbitrary: c) (simp_all add: stub_step_armed)

lemma start_fields:
  "jobId_of (processImageInWasm img sig jobId t0) = jobId"
  "imageBlob (processImageInWasm img sig jobId t0) = img"
  "clock (processImageInWasm img sig jobId t0) = t0"
  by (simp_all add: processImageInWasm_def onAbort_def settle_fields Let_def
      split: option.split)

lemma start_quiet:
  "sig \<noteq> Some True \<Longrightarrow> waiting (t0 + 900) (processImageInWasm img sig jobId t0)"
  by (auto simp: processImageInWasm_def waiting_def Let_def split: option.split)

lemma start_aborted:
  "promise (processImageInWasm img (Some True) jobId t0) = Some (Rejected abortError)"
  by (simp add: processImageInWasm_def onAbort_def settle_promise Let_def)

lemma start_armed: "armed (processImageInWasm img (Some False) jobId t0)"
  by (simp add: processImageInWasm_def armed_def Let_def)

lemma outcome_None: "outcome c = None \<longleftrightarrow> promise c = None"
  by (auto simp: outcome_def split: option.split settled.split)

lemma outcome_rejected: "promise c = Some (Rejected e) \<Longrightarrow> outcome c = Some (Rejected e)"
  by (simp add: outcome_def)

lemma outcome_resolved:
  "promise c = Some (Resolved u) \<Longrightarrow>
   outcome c = Some (Resolved (stubResult (jobId_of c) (imageBlob c)))"
  by (simp add: outcome_def)


lemma digit_code: "n < 10 \<Longrightarrow> of_char (''0123456789'' ! n) = (48 + n :: nat)"
proof -
  have "\<forall>n \<in> set [0..<10]. of_char (''0123456789'' ! n) = (48 + n :: nat)"
    by code_simp
  then show "n < 10 \<Longrightarrow> of_char (''0123456789'' ! n) = (48 + n :: nat)"
    by simp
qed

lemma readDecimal_snoc:
  "readDecimal (ds @ [d]) = 10 * readDecimal ds + (of_char d - 48)"
  by (simp add: readDecimal_def)

lemma readDecimal_show_nat: "readDecimal (show_nat n) = n"
proof (induction n rule: show_nat.induct)
  case (1 n)
  show ?case
  proof (cases "n < 10")
    case True
    then show ?thesis by (simp add: show_nat_small readDecimal_def digit_code)
  next
    case False
    then have "readDecimal (show_nat n) =
        10 * readDecimal (show_nat (n div 10)) + (of_char (''0123456789'' ! (n mod 10)) - 48)"
      by (simp add: show_nat_big readDecimal_snoc)
    also have "\<dots> = 10 * (n div 10) + n mod 10"
      using 1 False by (simp add: digit_code)
    finally show ?thesis by simp
  qed
qed

text \<open>
  C7. A call of the stub whose signal is absent or not aborted, and to which
  no abort is delivered, is pending or resolved with the string of line 26,
  which prints the job id and the blob's size in decimal (read back, the two
  runs of digits are these numbers); it is not resolved before 900 ms have
  passed, and it is resolved once the timeout's callback runs after that. A
  call whose signal is already aborted is rejected with the \<^verbatim>\<open>AbortError\<close>
  from the start and stays so; a call that is still pending when the abort
  arrives is rejected with it and stays so.
\<close>

theorem stub_contract:
  "(sig \<noteq> Some True \<and> SignalAbort \<notin> set evs \<longrightarrow>
      (outcome (stub_run (processImageInWasm img sig jobId t0) evs) = None \<or>
       outcome (stub_run (processImageInWasm img sig jobId t0) evs) =
         Some (Resolved (''WASM stub '' @ [CHR 0xE2, CHR 0x9C, CHR 0x93] @ '' (job #'' @
           show_nat jobId @ ''). Bytes: '' @ show_nat (size_b img)))) \<and>
      (outcome (stub_run (processImageInWasm img sig jobId t0) evs) \<noteq> None \<longrightarrow>
         t0 + 900 \<le> clock (stub_run (processImageInWasm img sig jobId t0) evs)) \<and>
      (t0 + 900 \<le> clock (stub_run (processImageInWasm img sig jobId t0) evs) \<longrightarrow>
         outcome (stub_run (processImageInWasm img sig jobId t0) (evs @ [TimerFires])) =
           Some (Resolved (''WASM stub '' @ [CHR 0xE2, CHR 0x9C, CHR 0x93] @ '' (job #'' @
             show_nat jobId @ ''). Bytes: '' @ show_nat (size_b img))))) \<and>
   readDecimal (show_nat jobId) = jobId \<and>
   readDecimal (show_nat (size_b img)) = size_b img \<and>
   (sig = Some True \<longrightarrow>
      outcome (stub_run (processImageInWasm img sig jobId t0) evs) =
        Some (Rejected abortError)) \<and>
   (sig = Some False \<and> outcome (stub_run (processImageInWasm img sig jobId t0) evs) = None \<longrightarrow>
      outcome (stub_run (processImageInWasm img sig jobId t0) (evs @ SignalAbort # evs')) =
        Some (Rejected abortError)) \<and>
   name abortError = Some ''AbortError''"
proof -
  define c0 where "c0 = processImageInWasm img sig jobId t0"
  define c where "c = stub_run c0 evs"
  define str where "str = ''WASM stub '' @ [CHR 0xE2, CHR 0x9C, CHR 0x93] @ '' (job #'' @
    show_nat jobId @ ''). Bytes: '' @ show_nat (size_b img)"
  have str: "stubResult jobId img = str"
    by (simp add: stubResult_def str_def)
  have ids: "jobId_of c = jobId" "imageBlob c = img"
    by (simp_all add: c_def c0_def stub_run_ids start_fields)
  have quiet: "(outcome c = None \<or> outcome c = Some (Resolved str)) \<and>
      (outcome c \<noteq> None \<longrightarrow> t0 + 900 \<le> clock c) \<and>
      (t0 + 900 \<le> clock c \<longrightarrow>
         outcome (stub_run c0 (evs @ [TimerFires])) = Some (Resolved str))"
    if "sig \<noteq> Some True" "SignalAbort \<notin> set evs"
  proof -
    have w: "waiting (t0 + 900) c"
      unfolding c_def c0_def by (rule stub_run_waiting [OF start_quiet [OF that(1)] that(2)])
    have fire: "promise (stub_step c TimerFires) = Some (Resolved ())" if "t0 + 900 \<le> clock c"
      using w that by (auto simp: waiting_def settle_promise split: option.split)
    have "jobId_of (stub_step c TimerFires) = jobId_of c \<and>
        imageBlob (stub_step c TimerFires) = imageBlob c"
      by (rule stub_step_ids)
    then have ids': "jobId_of (stub_step c TimerFires) = jobId" "imageBlob (stub_step c TimerFires) = img"
      unfolding ids by blast+
    have last: "stub_run c0 (evs @ [TimerFires]) = stub_step c TimerFires"
      by (simp add: stub_run_snoc c_def stub_run_def)
    show ?thesis
      using w outcome_resolved [of c "()"] outcome_resolved [of "stub_step c TimerFires" "()"]
        fire ids ids' last str
      by (auto simp: waiting_def outcome_None)
  qed
  have pre: "outcome c = Some (Rejected abortError)" if "sig = Some True"
    unfolding c_def c0_def that
    by (rule outcome_rejected [OF stub_run_settled [OF start_aborted]])
  have during: "outcome (stub_run c0 (evs @ SignalAbort # evs')) = Some (Rejected abortError)"
    if "sig = Some False" "outcome c = None"
  proof -
    have "armed c" unfolding c_def c0_def that(1) by (rule stub_run_armed [OF start_armed])
    with that(2) have "promise (stub_step c SignalAbort) = Some (Rejected abortError)"
      by (simp add: armed_def outcome_None onAbort_def settle_promise Let_def)
    then have "promise (stub_run (stub_step c SignalAbort) evs') = Some (Rejected abortError)"
      by (rule stub_run_settled)
    moreover have "stub_run c0 (evs @ SignalAbort # evs') = stub_run (stub_step c SignalAbort) evs'"
      by (simp add: stub_run_snoc c_def stub_run_def)
    ultimately show ?thesis by (simp add: outcome_rejected)
  qed
  have "name abortError = Some ''AbortError''" by (simp add: abortError_def)
  with quiet pre during readDecimal_show_nat [of jobId] readDecimal_show_nat [of "size_b img"]
  show ?thesis unfolding c_def c0_def str_def by blast
qed

theorem stub_contract_witness:
  "outcome (stub_run (processImageInWasm pngFile (Some False) 7 0) ([Elapse 900] @ [TimerFires])) =
     Some (Resolved (''WASM stub '' @ [CHR 0xE2, CHR 0x9C, CHR 0x93] @ '' (job #7). Bytes: 2048'')) \<and>
   readDecimal ''7'' = 7 \<and> readDecimal ''2048'' = size_b pngFile \<and>
   outcome (stub_run (processImageInWasm pngFile (Some True) 7 0) [Elapse 900, TimerFires]) =
     Some (Rejected abortError) \<and>
   outcome (stub_run (processImageInWasm pngFile (Some False) 7 0)
     ([Elapse 300] @ SignalAbort # [Elapse 900, TimerFires])) = Some (Rejected abortError)"
proof -
  have h1: "Some False \<noteq> Some True \<and> SignalAbort \<notin> set [Elapse 900]" by simp
  have h2: "0 + 900 \<le> clock (stub_run (processImageInWasm pngFile (Some False) 7 0) [Elapse 900])"
    by (simp add: stub_run_def processImageInWasm_def Let_def)
  have h3: "outcome (stub_run (processImageInWasm pngFile (Some False) 7 0) [Elapse 300]) = None"
    by (simp add: stub_run_def processImageInWasm_def Let_def outcome_def)
  have p: "show_nat 7 = ''7''" "show_nat (size_b pngFile) = ''2048''"
    by (simp_all add: pngFile_def show_nat_small show_nat_big)
  from stub_contract [of "Some False" "[Elapse 900]" pngFile 7 0] h1 h2
  have r1: "outcome (stub_run (processImageInWasm pngFile (Some False) 7 0)
      ([Elapse 900] @ [TimerFires])) =
      Some (Resolved (''WASM stub '' @ [CHR 0xE2, CHR 0x9C, CHR 0x93] @ '' (job #'' @
           show_nat 7 @ ''). Bytes: '' @ show_nat (size_b pngFile)))"
    and r0: "readDecimal (show_nat 7) = 7"
      "readDecimal (show_nat (size_b pngFile)) = size_b pngFile"
    by blast+
  from stub_contract [of "Some True" "[Elapse 900, TimerFires]" pngFile 7 0]
  have r2: "outcome (stub_run (processImageInWasm pngFile (Some True) 7 0)
      [Elapse 900, TimerFires]) = Some (Rejected abortError)"
    by blast
  from stub_contract [of "Some False" "[Elapse 300]" pngFile 7 0 "[Elapse 900, TimerFires]"] h3
  have r3: "outcome (stub_run (processImageInWasm pngFile (Some False) 7 0)
      ([Elapse 300] @ SignalAbort # [Elapse 900, TimerFires])) = Some (Rejected abortError)"
    by blast
  from r1 r0 have "outcome (stub_run (processImageInWasm pngFile (Some False) 7 0)
      ([Elapse 900] @ [TimerFires])) =
      Some (Resolved (''WASM stub '' @ [CHR 0xE2, CHR 0x9C, CHR 0x93] @ '' (job #7). Bytes: 2048''))"
    "readDecimal ''7'' = 7" "readDecimal ''2048'' = size_b pngFile"
    unfolding p by simp_all
  with r2 r3 show ?thesis by blast
qed

section \<open>Properties of the job sequencer\<close>

lemma afterProcess_stale_resolved:
  "jobId \<noteq> currentJob s \<Longrightarrow> afterProcess jobId (Resolved res) s = s"
  by (simp add: afterProcess_def)

lemma afterProcess_stale_aborted:
  "jobId \<noteq> currentJob s \<Longrightarrow> name e = Some ''AbortError'' \<Longrightarrow>
   afterProcess jobId (Rejected e) s = s"
  by (simp add: afterProcess_def)

lemma stub_step_abortOnly: "abortOnly c \<Longrightarrow> abortOnly (stub_step c e)"
  by (cases e)
    (auto simp: abortOnly_def settle_promise onAbort_def Let_def split: option.split bool.split)

lemma start_abortOnly: "abortOnly (processImageInWasm img (Some False) j t)"
  by (simp add: abortOnly_def processImageInWasm_def Let_def)

lemma inflight_frame:
  "inflight (beginUpload f s) = inflight s"
  "inflight (snd (chooseBlob f r s)) = inflight s"
  "inflight (afterProcess j res s) = inflight s"
  "inflight (revokeObjectURL u s) = inflight s"
  "inflight (cleanupPreview s) = inflight s"
  by (simp_all add: beginUpload_def createObjectURL_def setImagePreviewUrl_def
      revokeObjectURL_def chooseBlob_def afterProcess_def cleanupPreview_def Let_def
      split: option.split sum.split settled.split)

lemma map_calls:
  assumes "\<forall>x \<in> set xs. abortOnly (snd (snd x))"
    and "\<And>j a c. abortOnly c \<Longrightarrow> abortOnly (g j a c)"
  shows "\<forall>x \<in> set (map (\<lambda>(j, a, c). (j, a, g j a c)) xs). abortOnly (snd (snd x))"
proof
  fix x assume "x \<in> set (map (\<lambda>(j, a, c). (j, a, g j a c)) xs)"
  then obtain j a c where "(j, a, c) \<in> set xs" and x: "x = (j, a, g j a c)"
    by auto
  with assms(1) have "abortOnly c" by fastforce
  with x assms(2) show "abortOnly (snd (snd x))" by simp
qed

lemma abortCurrent_calls:
  assumes "\<forall>x \<in> set (inflight s). abortOnly (snd (snd x))"
  shows "\<forall>x \<in> set (inflight (abortCurrent s)). abortOnly (snd (snd x))"
  unfolding abortCurrent_inflight
  by (rule map_calls [OF assms]) (simp add: stub_step_abortOnly del: stub_step.simps)

lemma elapse_inflight:
  "inflight (elapse d s) = map (\<lambda>(j, a, c). (j, a, stub_step c (Elapse d))) (inflight s)"
  by (simp add: elapse_def del: stub_step.simps)

lemma fireTimer_inflight:
  "inflight (fireTimer j s) =
     map (\<lambda>(j', a, c). (j', a, if j' = j then stub_step c TimerFires else c)) (inflight s)"
  by (simp add: fireTimer_def del: stub_step.simps)

lemma elapse_calls:
  assumes "\<forall>x \<in> set (inflight s). abortOnly (snd (snd x))"
  shows "\<forall>x \<in> set (inflight (elapse d s)). abortOnly (snd (snd x))"
  unfolding elapse_inflight
  by (rule map_calls [OF assms]) (rule stub_step_abortOnly)

lemma fireTimer_calls:
  assumes "\<forall>x \<in> set (inflight s). abortOnly (snd (snd x))"
  shows "\<forall>x \<in> set (inflight (fireTimer j s)). abortOnly (snd (snd x))"
  unfolding fireTimer_inflight
  by (rule map_calls [OF assms]) (simp add: stub_step_abortOnly del: stub_step.simps)

lemma submitJob_calls:
  assumes "\<forall>x \<in> set (inflight s). abortOnly (snd (snd x))"
  shows "\<forall>x \<in> set (inflight (submitJob b s)). abortOnly (snd (snd x))"
  using abortCurrent_calls [OF assms] by (auto simp: submitJob_inflight start_abortOnly)

lemma mono_handleFiles_inflight: "inflight (mono_handleFiles files s) = inflight s"
  by (simp add: mono_handleFiles_def Let_def inflight_frame split: option.split)

lemma uploader_handleFiles_inflight: "inflight (uploader_handleFiles files s) = inflight s"
  by (simp add: uploader_handleFiles_def inflight_frame split: option.split)

lemma resumeProcess_inflight: "inflight (resumeProcess j s) = inflight s"
  by (simp add: resumeProcess_def inflight_frame split: option.split)

lemma handleImage_calls:
  assumes "\<forall>x \<in> set (inflight s). abortOnly (snd (snd x))"
  shows "\<forall>x \<in> set (inflight (handleImage b s)). abortOnly (snd (snd x))"
  unfolding handleImage_def by (rule submitJob_calls) (use assms in simp)

lemma resumeDownscale_calls:
  assumes "\<forall>x \<in> set (inflight s). abortOnly (snd (snd x))"
    and "\<And>b s'. \<forall>x \<in> set (inflight s'). abortOnly (snd (snd x)) \<Longrightarrow>
           \<forall>x \<in> set (inflight (submit b s')). abortOnly (snd (snd x))"
    and "\<And>f r s'. continue f r s' = submit (fst (chooseBlob f r s')) (snd (chooseBlob f r s'))"
  shows "\<forall>x \<in> set (inflight (resumeDownscale continue k env s)). abortOnly (snd (snd x))"
proof (cases "k < length (awaitingDownscale s)")
  case True
  obtain f url where fu: "awaitingDownscale s ! k = (f, url)"
    by (cases "awaitingDownscale s ! k")
  define s2 where "s2 = revokeObjectURL url
     (s\<lparr>awaitingDownscale := take k (awaitingDownscale s) @ drop (Suc k) (awaitingDownscale s)\<rparr>)"
  have "inflight (snd (chooseBlob f (downscaleDefault f env) s2)) = inflight s"
    by (simp add: inflight_frame s2_def)
  with assms(1) have "\<forall>x \<in> set (inflight (snd (chooseBlob f (downscaleDefault f env) s2))).
      abortOnly (snd (snd x))" by simp
  from assms(2) [OF this] show ?thesis
    unfolding resumeDownscale_at [OF True fu] assms(3) s2_def .
next
  case False
  with assms(1) show ?thesis by (simp add: resumeDownscale_def)
qed

lemma mono_step_calls:
  assumes "\<forall>x \<in> set (inflight s). abortOnly (snd (snd x))"
  shows "\<forall>x \<in> set (inflight (mono_step s e)). abortOnly (snd (snd x))"
proof (cases e)
  case (Files files)
  with assms show ?thesis by (simp add: mono_handleFiles_inflight)
next
  case (DownscaleDone k env)
  show ?thesis
    unfolding DownscaleDone mono_step.simps
    by (rule resumeDownscale_calls [OF assms, where submit = submitJob])
      (erule submitJob_calls, rule mono_afterDownscale_alt)
next
  case (Tick d)
  with elapse_calls [OF assms] show ?thesis by simp
next
  case (Timeout j)
  with fireTimer_calls [OF assms] show ?thesis by simp
next
  case (Deliver j)
  with assms show ?thesis by (simp add: resumeProcess_inflight)
next
  case Unmount
  from abortCurrent_calls [of "cleanupPreview s"] assms show ?thesis
    by (simp add: Unmount mono_cleanup_def inflight_frame)
qed

lemma split_step_calls:
  assumes "\<forall>x \<in> set (inflight s). abortOnly (snd (snd x))"
  shows "\<forall>x \<in> set (inflight (split_step s e)). abortOnly (snd (snd x))"
proof (cases e)
  case (Files files)
  with assms show ?thesis by (simp add: uploader_handleFiles_inflight)
next
  case (DownscaleDone k env)
  show ?thesis
    unfolding DownscaleDone split_step.simps
    by (rule resumeDownscale_calls [OF assms, where submit = handleImage])
      (erule handleImage_calls, rule uploader_afterDownscale_alt)
next
  case (Tick d)
  with elapse_calls [OF assms] show ?thesis by simp
next
  case (Timeout j)
  with fireTimer_calls [OF assms] show ?thesis by simp
next
  case (Deliver j)
  with assms show ?thesis by (simp add: resumeProcess_inflight)
next
  case Unmount
  with assms show ?thesis by (simp add: uploader_cleanup_def inflight_frame)
qed

lemma mono_run_calls: "\<forall>x \<in> set (inflight (mono_run evs)). abortOnly (snd (snd x))"
proof -
  have "\<forall>x \<in> set (inflight s). abortOnly (snd (snd x)) \<Longrightarrow>
        \<forall>x \<in> set (inflight (foldl mono_step s evs)). abortOnly (snd (snd x))" for s
  proof (induction evs arbitrary: s)
    case Nil
    then show ?case by simp
  next
    case (Cons e evs)
    from Cons.IH [OF mono_step_calls [OF Cons.prems]] show ?case by simp
  qed
  from this [of initial] show ?thesis by (simp add: mono_run_def initial_def)
qed

lemma split_run_calls: "\<forall>x \<in> set (inflight (split_run evs)). abortOnly (snd (snd x))"
proof -
  have "\<forall>x \<in> set (inflight s). abortOnly (snd (snd x)) \<Longrightarrow>
        \<forall>x \<in> set (inflight (foldl split_step s evs)). abortOnly (snd (snd x))" for s
  proof (induction evs arbitrary: s)
    case Nil
    then show ?case by simp
  next
    case (Cons e evs)
    from Cons.IH [OF split_step_calls [OF Cons.prems]] show ?case by simp
  qed
  from this [of initial] show ?thesis by (simp add: split_run_def initial_def)
qed

lemma settledAs_cases:
  assumes "\<forall>x \<in> set (inflight s). abortOnly (snd (snd x))" and "settledAs j s = Some r"
  shows "(\<exists>x. r = Resolved x) \<or> r = Rejected abortError"
proof -
  from assms(2) obtain j' a c where f: "find (\<lambda>(j', a, c). j' = j) (inflight s) = Some (j', a, c)"
    and o: "outcome c = Some r"
    by (auto simp: settledAs_def split: option.splits prod.splits)
  from f have "(j', a, c) \<in> set (inflight s)"
    by (auto simp: find_Some_iff in_set_conv_nth)
  with assms(1) have "abortOnly c" by fastforce
  with o show ?thesis
    by (auto simp: abortOnly_def outcome_def)
qed

lemma resumeProcess_stale:
  assumes "\<forall>x \<in> set (inflight s). abortOnly (snd (snd x))" and "j \<noteq> currentJob s"
  shows "resumeProcess j s = s\<lparr>awaitingProcess := awaitingProcess (resumeProcess j s)\<rparr>"
proof (cases "j \<in> set (awaitingProcess s) \<and> settledAs j s \<noteq> None")
  case False
  then show ?thesis by (auto simp: resumeProcess_def)
next
  case True
  then obtain r where r: "settledAs j s = Some r" by auto
  define s' where "s' = s\<lparr>awaitingProcess := removeAll j (awaitingProcess s)\<rparr>"
  have st: "j \<noteq> currentJob s'" using assms(2) by (simp add: s'_def)
  have "afterProcess j r s' = s'"
    using settledAs_cases [OF assms(1) r] st
    by (auto simp: afterProcess_stale_resolved afterProcess_stale_aborted abortError_def)
  with True r show ?thesis by (simp add: resumeProcess_def s'_def)
qed

text \<open>
  C1. A completion that arrives when its job id is no longer the current one
  changes nothing visible. The page is taken in any state that a sequence of
  events reaches, and the completion is the one the stub has really settled
  for job \<open>j\<close>: a superseded call has either resolved, and the guard after
  the await drops its string, or was aborted by the job that superseded it, and
  the \<^verbatim>\<open>catch\<close> block ignores the \<^verbatim>\<open>AbortError\<close>. The page after the
  completion is the page before it, result, error, processing flag and preview
  included; only the list of suspended continuations, which is no state of the
  program, has lost \<open>j\<close>. So of two jobs submitted one after the other only
  the second one's outcome can reach the result or the error.
\<close>

theorem stale_completion_changes_nothing:
  "(j \<noteq> currentJob (split_run evs) \<longrightarrow>
      split_step (split_run evs) (Deliver j) =
        (split_run evs)\<lparr>awaitingProcess :=
           awaitingProcess (split_step (split_run evs) (Deliver j))\<rparr>) \<and>
   (j \<noteq> currentJob (mono_run evs) \<longrightarrow>
      mono_step (mono_run evs) (Deliver j) =
        (mono_run evs)\<lparr>awaitingProcess :=
           awaitingProcess (mono_step (mono_run evs) (Deliver j))\<rparr>)"
  using resumeProcess_stale [OF split_run_calls, of j evs]
    resumeProcess_stale [OF mono_run_calls, of j evs]
  by simp

theorem stale_completion_changes_nothing_witness:
  "1 \<noteq> currentJob (split_run (twoUploads undecodable)) \<and>
   1 \<noteq> currentJob (mono_run (twoUploads undecodable)) \<and>
   settledAs 1 (split_run (twoUploads undecodable)) = Some (Rejected abortError) \<and>
   settledAs 1 (mono_run (twoUploads undecodable)) = Some (Rejected abortError) \<and>
   split_step (split_run (twoUploads undecodable)) (Deliver 1) =
     (split_run (twoUploads undecodable))\<lparr>awaitingProcess := [2]\<rparr> \<and>
   mono_step (mono_run (twoUploads undecodable)) (Deliver 1) =
     (mono_run (twoUploads undecodable))\<lparr>awaitingProcess := [2]\<rparr>"
proof -
  have c: "settledAs (Suc 0) (split_run (twoUploads undecodable)) = Some (Rejected abortError)"
    "settledAs (Suc 0) (mono_run (twoUploads undecodable)) = Some (Rejected abortError)"
    using split_twoUploads_calls [of undecodable] mono_twoUploads_calls [of undecodable]
    by simp_all
  have a: "awaitingProcess (split_step (split_run (twoUploads undecodable)) (Deliver 1)) = [2]"
    "awaitingProcess (mono_step (mono_run (twoUploads undecodable)) (Deliver 1)) = [2]"
    by (simp_all add: resumeProcess_def split_twoUploads mono_twoUploads c
        afterProcess_stale_aborted abortError_def)
  have n: "1 \<noteq> currentJob (split_run (twoUploads undecodable))"
    "1 \<noteq> currentJob (mono_run (twoUploads undecodable))"
    by (simp_all add: split_twoUploads mono_twoUploads)
  from stale_completion_changes_nothing [of 1 "twoUploads undecodable"] n
  have e: "split_step (split_run (twoUploads undecodable)) (Deliver 1) =
      (split_run (twoUploads undecodable))\<lparr>awaitingProcess := [2]\<rparr>"
    "mono_step (mono_run (twoUploads undecodable)) (Deliver 1) =
      (mono_run (twoUploads undecodable))\<lparr>awaitingProcess := [2]\<rparr>"
    unfolding a by blast+
  from n e split_twoUploads_calls [of undecodable] mono_twoUploads_calls [of undecodable]
  show ?thesis by blast
qed

text \<open>
  C2. A processing call that rejects with an \<^verbatim>\<open>AbortError\<close> never changes the
  visible error (nor the visible result), whichever job it belongs to.
\<close>

theorem cancellation_sets_no_error:
  "name e = Some ''AbortError'' \<Longrightarrow>
   error (afterProcess jobId (Rejected e) s) = error s \<and>
   result (afterProcess jobId (Rejected e) s) = result s"
  by (simp add: afterProcess_def)

theorem cancellation_sets_no_error_witness:
  "name abortError = Some ''AbortError'' \<and>
   error (afterProcess 1 (Rejected abortError) (handleImage pngFile initial)) = []"
  using cancellation_sets_no_error [of abortError 1 "handleImage pngFile initial"]
  by (simp add: abortError_def handleImage_fields)

text \<open>
  C8. When a job's call settles, in whatever way, and the job is no longer the
  current one, the processing flag keeps its value; when it is still the
  current one, the flag is cleared.
\<close>

theorem stale_completion_keeps_flag:
  "(jobId \<noteq> currentJob s \<longrightarrow> isProcessing (afterProcess jobId r s) = isProcessing s) \<and>
   (jobId = currentJob s \<longrightarrow> \<not> isProcessing (afterProcess jobId r s))"
  by (simp add: afterProcess_def Let_def split: settled.split)

theorem stale_completion_keeps_flag_witness:
  "1 \<noteq> currentJob (handleImage jpegFile (handleImage pngFile initial)) \<and>
   isProcessing (afterProcess 1 (Resolved ''done'')
     (handleImage jpegFile (handleImage pngFile initial))) \<and>
   \<not> isProcessing (afterProcess 2 (Resolved ''done'')
     (handleImage jpegFile (handleImage pngFile initial)))"
  using stale_completion_keeps_flag
      [of 1 "handleImage jpegFile (handleImage pngFile initial)" "Resolved ''done''"]
    stale_completion_keeps_flag
      [of 2 "handleImage jpegFile (handleImage pngFile initial)" "Resolved ''done''"]
  by (simp add: handleImage_fields initial_def)

section \<open>Properties of image acquisition\<close>

text \<open>
  C3, as stated: every refused candidate is reported with a visible error.
  When no file is present (\<^verbatim>\<open>if (!file) return\<close>, the first statement of
  both handlers) nothing is reported: after the call on the fresh page, with
  no file list or with an empty one, the error is still empty.
\<close>

theorem refusal_without_error:
  "\<not> (refused None \<longrightarrow> error (mono_handleFiles None initial) \<noteq> []) \<and>
   \<not> (refused (Some []) \<longrightarrow> error (mono_handleFiles (Some []) initial) \<noteq> []) \<and>
   \<not> (refused None \<longrightarrow> error (uploader_handleFiles None initial) \<noteq> [])"
  by (simp add: refused_def firstFile_def mono_handleFiles_def uploader_handleFiles_def
      initial_def)

text \<open>
  C3, amended. In both variants the candidate is refused exactly when the
  handler creates no object URL, and a refusal leaves the preview, the
  suspended work and the submitted jobs as they were, while an accepted file
  becomes the preview and starts a downscale. When no file is present the
  handler returns at once and the page is unchanged, error included. The
  monolith reports a wrong type and an excessive size with a message each.
\<close>

theorem acquisition_gate:
  "(refused files \<longleftrightarrow> nextUrl (mono_handleFiles files s) = nextUrl s) \<and>
   (refused files \<longleftrightarrow> nextUrl (uploader_handleFiles files s) = nextUrl s) \<and>
   (refused files \<longrightarrow>
      imagePreviewUrl (mono_handleFiles files s) = imagePreviewUrl s \<and>
      awaitingDownscale (mono_handleFiles files s) = awaitingDownscale s \<and>
      processCalls (mono_handleFiles files s) = processCalls s \<and>
      currentJob (mono_handleFiles files s) = currentJob s \<and>
      imagePreviewUrl (uploader_handleFiles files s) = imagePreviewUrl s \<and>
      awaitingDownscale (uploader_handleFiles files s) = awaitingDownscale s \<and>
      processCalls (uploader_handleFiles files s) = processCalls s \<and>
      currentJob (uploader_handleFiles files s) = currentJob s) \<and>
   (\<not> refused files \<longrightarrow>
      imagePreviewUrl (mono_handleFiles files s) = Some (nextUrl s) \<and>
      imagePreviewUrl (uploader_handleFiles files s) = Some (nextUrl s) \<and>
      awaitingDownscale (mono_handleFiles files s) \<noteq> awaitingDownscale s \<and>
      awaitingDownscale (uploader_handleFiles files s) \<noteq> awaitingDownscale s) \<and>
   (firstFile files = None \<longrightarrow>
      mono_handleFiles files s = s \<and> uploader_handleFiles files s = s) \<and>
   (\<forall>file. firstFile files = Some file \<and> \<not> prefix ''image/'' (type file) \<longrightarrow>
      error (mono_handleFiles files s) = ''Please upload an image file (JPEG/PNG/WebP).'') \<and>
   (\<forall>file. firstFile files = Some file \<and> prefix ''image/'' (type file) \<and>
        MAX_BYTES < size_b file \<longrightarrow>
      error (mono_handleFiles files s) = ''File is too large (> 10 MB).'')"
  by (auto simp add: refused_def mono_handleFiles_def uploader_handleFiles_def Let_def
      beginUpload_fields tooLargeMessage_eq split: option.split)

theorem acquisition_gate_witness:
  "refused (Some [hugeFile]) \<and> \<not> refused (Some [pngFile]) \<and> refused None \<and>
   nextUrl (mono_handleFiles (Some [hugeFile]) initial) = nextUrl initial \<and>
   nextUrl (uploader_handleFiles (Some [hugeFile]) initial) = nextUrl initial \<and>
   error (mono_handleFiles (Some [hugeFile]) initial) = ''File is too large (> 10 MB).'' \<and>
   error (mono_handleFiles (Some [textFile]) initial) =
     ''Please upload an image file (JPEG/PNG/WebP).'' \<and>
   mono_handleFiles None initial = initial \<and> uploader_handleFiles None initial = initial \<and>
   imagePreviewUrl (mono_handleFiles (Some [pngFile]) initial) = Some 0 \<and>
   imagePreviewUrl (uploader_handleFiles (Some [pngFile]) initial) = Some 0"
  using acquisition_gate [of "Some [hugeFile]" initial]
    acquisition_gate [of "Some [pngFile]" initial]
    acquisition_gate [of "Some [textFile]" initial]
    acquisition_gate [of None initial]
  by (simp add: refused_def firstFile_def hugeFile_def pngFile_def textFile_def MAX_BYTES_def
      initial_def)

text \<open>
  C10. In the monolith a call with a file present leaves the result empty and
  the error either empty (the file is accepted) or the message of the failed
  check, whatever both held before.
\<close>

theorem handleFiles_erases_display:
  "firstFile files = Some file \<Longrightarrow>
   result (mono_handleFiles files s) = [] \<and>
   error (mono_handleFiles files s) =
     (if \<not> prefix ''image/'' (type file) then ''Please upload an image file (JPEG/PNG/WebP).''
      else if MAX_BYTES < size_b file then ''File is too large (> 10 MB).''
      else [])"
  by (simp add: mono_handleFiles_def Let_def beginUpload_fields tooLargeMessage_eq)

theorem handleFiles_erases_display_witness:
  "firstFile (Some [textFile]) = Some textFile \<and>
   result (mono_handleFiles (Some [textFile])
     (initial\<lparr>result := ''old result'', error := ''old error''\<rparr>)) = [] \<and>
   error (mono_handleFiles (Some [textFile])
     (initial\<lparr>result := ''old result'', error := ''old error''\<rparr>)) =
     ''Please upload an image file (JPEG/PNG/WebP).''"
  using handleFiles_erases_display
    [of "Some [textFile]" textFile "initial\<lparr>result := ''old result'', error := ''old error''\<rparr>"]
  by (simp add: firstFile_def textFile_def)

section \<open>Falling back to the original file\<close>

text \<open>
  C9. When the downscale of an accepted file throws, the handler resumes with
  the original file: the call it submits carries exactly that file, one
  warning with the thrown value is logged, and the visible error is not set
  (the monolith leaves it as it was, the split page's \<^verbatim>\<open>handleImage\<close> has
  just cleared it).
\<close>

theorem downscale_failure_falls_back:
  assumes "k < length (awaitingDownscale s)"
    and "awaitingDownscale s ! k = (file, url)"
    and "downscaleDefault file env = Inl e"
  shows "processCalls (mono_step s (DownscaleDone k env)) =
           processCalls s @ [(file, nextController s, currentJob s + 1)] \<and>
         warnings (mono_step s (DownscaleDone k env)) =
           warnings s @ [(''Downscale failed, using original file'', e)] \<and>
         error (mono_step s (DownscaleDone k env)) = error s \<and>
         processCalls (split_step s (DownscaleDone k env)) =
           processCalls s @ [(file, nextController s, currentJob s + 1)] \<and>
         warnings (split_step s (DownscaleDone k env)) =
           warnings s @ [(''Downscale failed, using original file'', e)] \<and>
         error (split_step s (DownscaleDone k env)) = []"
  using assms
  by (simp add: resumeDownscale_at mono_afterDownscale_alt uploader_afterDownscale_alt
      submitJob_fields handleImage_fields chooseBlob_fields revokeObjectURL_def)

lemma undecodable_fails: "downscaleDefault file undecodable = Inl invalidStateError"
  by (simp add: downscaleDefault_def downscaleImage_def undecodable_def)

theorem downscale_failure_falls_back_witness:
  "processCalls (mono_step (mono_step initial (Files (Some [pngFile]))) (DownscaleDone 0 undecodable)) =
     [(pngFile, 0, 1)] \<and>
   warnings (mono_step (mono_step initial (Files (Some [pngFile]))) (DownscaleDone 0 undecodable)) =
     [(''Downscale failed, using original file'', invalidStateError)] \<and>
   error (mono_step (mono_step initial (Files (Some [pngFile]))) (DownscaleDone 0 undecodable)) = [] \<and>
   processCalls (split_step (split_step initial (Files (Some [pngFile]))) (DownscaleDone 0 undecodable)) =
     [(pngFile, 0, 1)]"
proof -
  have m: "mono_step initial (Files (Some [pngFile])) = beginUpload pngFile initial"
    by (simp add: mono_handleFiles_def firstFile_def pngFile_def MAX_BYTES_def initial_def)
  have u: "split_step initial (Files (Some [pngFile])) = beginUpload pngFile initial"
    by (simp add: uploader_handleFiles_def firstFile_def pngFile_def MAX_BYTES_def initial_def)
  have a: "0 < length (awaitingDownscale (beginUpload pngFile initial))"
    "awaitingDownscale (beginUpload pngFile initial) ! 0 = (pngFile, 1)"
    by (simp_all add: beginUpload_fields initial_def)
  show ?thesis
    unfolding m u
    using downscale_failure_falls_back [OF a undecodable_fails]
    by (simp add: beginUpload_fields initial_def)
qed

section \<open>Binary64 rounding and the downscaler\<close>

lemma rne_close: "\<bar>of_int (rne y) - y\<bar> \<le> 1 / 2"
proof -
  have lo: "of_int \<lfloor>y\<rfloor> \<le> y" and hi: "y < of_int \<lfloor>y\<rfloor> + 1"
    by linarith+
  show ?thesis
    unfolding rne_def Let_def using lo hi by (simp add: abs_le_iff)
qed

lemma rne_ge: "of_int k \<le> y \<Longrightarrow> k \<le> rne y"
proof -
  assume "of_int k \<le> y"
  then have "k \<le> \<lfloor>y\<rfloor>" by (simp add: le_floor_iff)
  then show ?thesis unfolding rne_def Let_def by simp 
qed

lemma int_bounds:
  fixes p :: int assumes "0 < p"
  shows "2 powi (bitlen p - 1) \<le> (of_int p :: rat) \<and> (of_int p :: rat) < 2 powi (bitlen p)"
proof -
  from assms have b1: "1 \<le> bitlen p" by (auto simp: bitlen_alt_def)
  from bitlen_bounds [OF assms]
  have lo: "(2::int) ^ nat (bitlen p - 1) \<le> p" and hi: "p < 2 ^ nat (bitlen p)" by auto
  have "(of_int ((2::int) ^ nat (bitlen p - 1)) :: rat) \<le> of_int p"
    using lo of_int_le_iff by blast
  moreover have "(of_int p :: rat) < of_int ((2::int) ^ nat (bitlen p))"
    using hi of_int_less_iff by blast
  ultimately show ?thesis using b1 by (simp add: power_int_def)
qed

lemma ilog2_bounds:
  assumes "0 < x"
  shows "2 powi (ilog2 x) \<le> x \<and> x < 2 powi (ilog2 x + 1)"
proof -
  obtain p q where pq: "quotient_of x = (p, q)" by (cases "quotient_of x")
  then have q: "0 < q" and x: "x = of_int p / of_int q"
    using quotient_of_denom_pos quotient_of_div by blast+
  with assms have p: "0 < p" by (simp add: zero_less_divide_iff)
  define d where "d = bitlen p - bitlen q"
  note P = int_bounds [OF p] and Q = int_bounds [OF q]
  have qpos: "(0::rat) < of_int q" using q by simp
  have two: "(2::rat) \<noteq> 0" by simp
  have e1: "(2::rat) powi (d + 1) * 2 powi (bitlen q - 1) = 2 powi (bitlen p)"
    unfolding d_def power_int_add [OF disjI1 [OF two], symmetric] by simp
  have "of_int p < (2::rat) powi (d + 1) * 2 powi (bitlen q - 1)"
    using P e1 by simp
  also have "\<dots> \<le> 2 powi (d + 1) * of_int q"
    using Q by (simp add: mult_left_mono)
  finally have high: "x < 2 powi (d + 1)"
    using qpos by (simp add: x pos_divide_less_eq)
  have e2: "(2::rat) powi (d - 1) * 2 powi (bitlen q) = 2 powi (bitlen p - 1)"
    unfolding d_def power_int_add [OF disjI1 [OF two], symmetric] by simp
  have "(2::rat) powi (d - 1) * of_int q < 2 powi (d - 1) * 2 powi (bitlen q)"
    using Q by (simp add: mult_strict_left_mono)
  also have "\<dots> \<le> of_int p" using P e2 by simp
  finally have low: "2 powi (d - 1) < x"
    using qpos by (simp add: x pos_less_divide_eq)
  have il: "ilog2 x = (if 2 powi d \<le> x then d else d - 1)"
    by (simp add: ilog2_def pq d_def)
  show ?thesis
  proof (cases "2 powi d \<le> x")
    case True
    with high il show ?thesis by simp
  next
    case False
    with low il show ?thesis by simp
  qed
qed

lemma fl_error:
  assumes "0 < x"
  shows "\<bar>fl x - x\<bar> \<le> x / 2 ^ 53"
proof -
  define e where "e = ilog2 x"
  define u :: rat where "u = 2 powi (e - 52)"
  have u: "0 < u" by (simp add: u_def)
  have two: "(2::rat) \<noteq> 0" by simp
  have fx: "fl x = of_int (rne (x / u)) * u"
    using assms by (simp add: fl_def e_def u_def Let_def)
  have "fl x - x = (of_int (rne (x / u)) - x / u) * u"
    using u by (simp add: fx left_diff_distrib)
  then have "\<bar>fl x - x\<bar> = \<bar>of_int (rne (x / u)) - x / u\<bar> * u"
    using u by (simp add: abs_mult)
  also have "\<dots> \<le> 1 / 2 * u"
    using rne_close [of "x / u"] u by (simp add: mult_right_mono)
  also have "\<dots> = 2 powi e / 2 ^ 53"
    by (simp add: u_def power_int_diff)
  also have "\<dots> \<le> x / 2 ^ 53"
    using ilog2_bounds [OF assms] by (simp add: e_def divide_right_mono)
  finally show ?thesis .
qed

lemma fl_ge_1:
  assumes "1 \<le> x"
  shows "1 \<le> fl x"
proof -
  define e where "e = ilog2 x"
  define u :: rat where "u = 2 powi (e - 52)"
  have x: "0 < x" using assms by simp
  have u: "0 < u" by (simp add: u_def)
  have fx: "fl x = of_int (rne (x / u)) * u"
    using x by (simp add: fl_def e_def u_def Let_def)
  have xlt: "x < 2 powi (e + 1)" using ilog2_bounds [OF x] by (simp add: e_def)
  have e0: "0 \<le> e"
  proof (rule ccontr)
    assume "\<not> 0 \<le> e"
    then have "e + 1 \<le> 0" by simp
    then have "(2::rat) powi (e + 1) \<le> 2 powi 0"
      by (intro power_int_increasing) simp_all
    with xlt assms show False by simp
  qed
  have "2 powi e \<le> x" using ilog2_bounds [OF x] by (simp add: e_def)
  then have "2 powi e / u \<le> x / u" using u by (simp add: divide_right_mono)
  moreover have "2 powi e / u = of_int (2 ^ 52)"
    by (simp add: u_def power_int_diff)
  ultimately have "2 ^ 52 \<le> rne (x / u)"
    using rne_ge [of "2 ^ 52" "x / u"] by simp
  then have "(2::rat) ^ 52 \<le> of_int (rne (x / u))"
    by (metis of_int_le_iff of_int_numeral of_int_power)
  then have "2 ^ 52 * u \<le> fl x" using u by (simp add: fx mult_right_mono)
  moreover have "2 ^ 52 * u = 2 powi e" by (simp add: u_def power_int_diff)
  moreover have "(1::rat) \<le> 2 powi e" using e0 by (simp add: one_le_power_int)
  ultimately show ?thesis by simp
qed


lemma fl_pos: "0 < x \<Longrightarrow> 0 < fl x"
proof -
  assume x: "0 < x"
  have "x / 2 ^ 53 < x" using x by (simp add: divide_less_eq)
  with fl_error [OF x] show ?thesis by linarith
qed

lemma scaleOf_one:
  assumes "0 < max w h" "max w h \<le> M"
  shows "scaleOf M w h = 1"
proof -
  have "(1::rat) \<le> of_nat M / of_nat (max w h)"
    using assms by (simp add: le_divide_eq)
  from fl_ge_1 [OF this] show ?thesis by (simp add: scaleOf_def)
qed

lemma scaleOf_close:
  assumes "0 < M" "M < max w h" "max w h < 2 ^ 32"
  shows "0 < scaleOf M w h" "scaleOf M w h < 1"
    "\<bar>scaleOf M w h - of_nat M / of_nat (max w h)\<bar> \<le> (of_nat M / of_nat (max w h)) / 2 ^ 53"
proof -
  define m where "m = max w h"
  define x :: rat where "x = of_nat M / of_nat m"
  have m: "0 < m" "M < m" "m < 2 ^ 32" using assms by (simp_all add: m_def)
  have x0: "0 < x" using assms m by (simp add: x_def)
  have "of_nat M + 1 \<le> (of_nat m :: rat)" using m(2)
    by (metis Suc_eq_plus1 Suc_leI of_nat_1 of_nat_add of_nat_le_iff)
  then have x1: "x \<le> 1 - 1 / of_nat m" using m(1)
    by (simp add: x_def field_simps)
  have "(of_nat m :: rat) < 2 ^ 32" using m(3)
    by (metis of_nat_less_iff of_nat_numeral of_nat_power)
  then have minv: "1 / 2 ^ 32 < 1 / (of_nat m :: rat)" using m(1)
    by (simp add: field_simps)
  have "0 < 1 / (of_nat m :: rat)" using m(1) by simp
  with x1 have "x \<le> 1" by linarith
  then have "x / 2 ^ 53 \<le> 1 / 2 ^ 53" by (rule divide_right_mono) simp
  with fl_error [OF x0] have "fl x \<le> x + 1 / 2 ^ 53" by linarith
  moreover have "(1::rat) / 2 ^ 53 < 1 / 2 ^ 32" by simp
  ultimately have f1: "fl x < 1" using x1 minv by linarith
  have sc: "scaleOf M w h = fl x" using f1 by (simp add: scaleOf_def x_def m_def)
  show "0 < scaleOf M w h" using fl_pos [OF x0] sc by simp
  show "scaleOf M w h < 1" using f1 sc by simp
  show "\<bar>scaleOf M w h - of_nat M / of_nat (max w h)\<bar> \<le> (of_nat M / of_nat (max w h)) / 2 ^ 53"
    using fl_error [OF x0] sc by (simp add: x_def m_def)
qed

lemma product_close:
  assumes M: "0 < M" "M < max w h" "max w h < 2 ^ 32" and a: "0 < a" "a \<le> max w h"
  shows "\<bar>fl (of_nat a * scaleOf M w h) - of_nat a * of_nat M / of_nat (max w h)\<bar> < 1 / 2 ^ 19"
proof -
  define m where "m = max w h"
  define x :: rat where "x = of_nat M / of_nat m"
  define s where "s = scaleOf M w h"
  define t :: rat where "t = of_nat a * x"
  note S0 = scaleOf_close [OF M]
  have S: "0 < s" "\<bar>s - x\<bar> \<le> x / 2 ^ 53"
    using S0(1,3) unfolding s_def x_def m_def by blast+
  have m: "0 < m" "M < m" "m < 2 ^ 32" using M by (simp_all add: m_def)
  have x0: "0 < x" using M m by (simp add: x_def)
  have a0: "(0::rat) < of_nat a" using a by simp
  have p0: "0 < of_nat a * s" using a0 S(1) by simp
  have ax: "of_nat a * (x / 2 ^ 53) = t / 2 ^ 53" by (simp add: t_def)
  have t0: "0 < t" using a0 x0 by (simp add: t_def)
  have "of_nat a * of_nat M \<le> (of_nat m * of_nat M :: rat)" using a(2)
    by (simp add: m_def mult_right_mono)
  then have tM: "t \<le> of_nat M" using m(1) by (simp add: t_def x_def field_simps)
  have "(of_nat M :: rat) < 2 ^ 32" using m(2,3)
    by (metis less_trans of_nat_less_iff of_nat_numeral of_nat_power)
  with tM have t32: "t < 2 ^ 32" by simp
  have "\<bar>of_nat a * s - t\<bar> = of_nat a * \<bar>s - x\<bar>"
    using a0 by (simp add: t_def right_diff_distrib [symmetric] abs_mult)
  also have "\<dots> \<le> of_nat a * (x / 2 ^ 53)"
    using S(2) a0 by (intro mult_left_mono) simp_all
  finally have e1: "\<bar>of_nat a * s - t\<bar> \<le> t / 2 ^ 53" unfolding ax .
  have "t / 2 ^ 53 \<le> t" using t0 by (simp add: divide_le_eq)
  with e1 have "of_nat a * s \<le> 2 * t" by linarith
  then have "of_nat a * s / 2 ^ 53 \<le> 2 * t / 2 ^ 53" by (rule divide_right_mono) simp
  with fl_error [OF p0] have e2: "\<bar>fl (of_nat a * s) - of_nat a * s\<bar> \<le> 2 * t / 2 ^ 53"
    by linarith
  have "\<bar>fl (of_nat a * s) - t\<bar> \<le> \<bar>fl (of_nat a * s) - of_nat a * s\<bar> + \<bar>of_nat a * s - t\<bar>"
    by simp
  also have "\<dots> \<le> 2 * t / 2 ^ 53 + t / 2 ^ 53" using e1 e2 by linarith
  also have "\<dots> < 1 / 2 ^ 19" using t32 by simp
  finally show ?thesis by (simp add: t_def x_def s_def m_def)
qed


lemma targetSide_bounds:
  assumes M: "0 < M" "M < max w h" "max w h < 2 ^ 32" and a: "0 < a" "a \<le> max w h"
  shows "\<bar>of_nat (targetSide a (scaleOf M w h)) - of_nat a * of_nat M / of_nat (max w h)\<bar> < (1::rat)"
    and "targetSide a (scaleOf M w h) \<le> M"
    and "a = max w h \<Longrightarrow> targetSide a (scaleOf M w h) = M"
proof -
  define m where "m = max w h"
  define t :: rat where "t = of_nat a * of_nat M / of_nat m"
  define y where "y = fl (of_nat a * scaleOf M w h)"
  define r where "r = jsround y"
  have yt: "\<bar>y - t\<bar> < 1 / 2 ^ 19"
    using product_close [OF M a] by (simp add: y_def t_def m_def)
  have small: "(1::rat) / 2 ^ 19 < 1 / 2" by simp
  have m0: "0 < m" using M by (simp add: m_def)
  have t0: "0 < t" using a M m0 by (simp add: t_def)
  have "of_nat a * of_nat M \<le> (of_nat m * of_nat M :: rat)" using a(2)
    by (simp add: m_def mult_right_mono)
  then have tM: "t \<le> of_nat M" using m0 by (simp add: t_def field_simps)
  have r1: "of_int r \<le> y + 1 / 2" and r2: "y + 1 / 2 < of_int r + 1"
    unfolding r_def jsround_def by linarith+
  have T: "targetSide a (scaleOf M w h) = nat (max 1 r)"
    by (simp add: targetSide_def y_def r_def)
  have Tr: "(of_nat (nat (max 1 r)) :: rat) = of_int (max 1 r)" by simp
  have "y + 1 / 2 < of_nat M + 1" using yt tM small by linarith
  also have "(of_nat M + 1 :: rat) = of_int (int M + 1)" by simp
  finally have "r < int M + 1" unfolding r_def jsround_def by (simp only: floor_less_iff)
  then have rM: "r \<le> int M" by simp
  show le: "targetSide a (scaleOf M w h) \<le> M" using rM M(1) by (simp add: T)
  show "\<bar>of_nat (targetSide a (scaleOf M w h)) - of_nat a * of_nat M / of_nat (max w h)\<bar> < (1::rat)"
  proof (cases "1 \<le> r")
    case True
    then have "max 1 r = r" by simp
    then have "(of_nat (targetSide a (scaleOf M w h)) :: rat) = of_int r" using T Tr by simp
    moreover have "\<bar>of_int r - t\<bar> < 1" using r1 r2 yt small by linarith
    ultimately show ?thesis by (simp add: t_def m_def)
  next
    case False
    then have r0: "r \<le> 0" by simp
    then have "max 1 r = 1" by simp
    then have "(of_nat (targetSide a (scaleOf M w h)) :: rat) = 1" using T by simp
    moreover have "(of_int r :: rat) \<le> 0" using r0 by simp
    then have "\<bar>1 - t\<bar> < 1" using r2 yt small t0 by linarith
    ultimately show ?thesis by (simp add: t_def m_def)
  qed
  show "targetSide a (scaleOf M w h) = M" if "a = max w h"
  proof -
    have am: "a = m" using that by (simp add: m_def)
    have "t = of_nat M" using m0 unfolding t_def am by simp
    then have "of_nat M \<le> y + 1 / 2" using yt small by linarith
    also have "(of_nat M :: rat) = of_int (int M)" by simp
    finally have "int M \<le> r" unfolding r_def jsround_def by (simp only: le_floor_iff)
    with rM have "r = int M" by simp
    then show ?thesis using M(1) by (simp add: T)
  qed
qed


lemma unat_lt_32: "unat (w :: 32 word) < 2 ^ 32"
  using unsigned_less [of w] by simp

text \<open>
  C4. When the decoded bitmap's larger side is at most \<open>maxSide\<close>, the
  downscaler returns the very file it was given; no raster is rendered and no
  encoder is asked.
\<close>

theorem downscale_within_bound:
  assumes "decoded env = Inr (w, h)" and "w \<noteq> 0" and "h \<noteq> 0"
    and "max (unat w) (unat h) \<le> maxSide"
  shows "downscaleImage file maxSide mime quality env = Inr file"
proof -
  have "0 < max (unat w) (unat h)" using assms(2) by (simp add: unat_gt_0 less_max_iff_disj)
  from scaleOf_one [OF this assms(4)] assms(1,2,3)
  show ?thesis by (simp add: downscaleImage_def Let_def unat_eq_0)
qed

text \<open>
  C5, amended. When the larger side exceeds \<open>maxSide \<ge> 1\<close>, the raster that is
  rendered and encoded has \<open>max(1, round(w * scale))\<close> by
  \<open>max(1, round(h * scale))\<close> pixels with \<open>scale = min(1, maxSide / max(w, h))\<close>
  in binary64 arithmetic; its longer side is exactly \<open>maxSide\<close> and each side is
  less than one pixel away from the exactly scaled side.
\<close>

theorem downscale_raster:
  assumes "decoded env = Inr (w, h)" and "w \<noteq> 0" and "h \<noteq> 0"
    and "1 \<le> maxSide" and "maxSide < max (unat w) (unat h)"
  shows "downscaleImage file maxSide mime quality env =
           renderRaster file (targetSide (unat w) (scaleOf maxSide (unat w) (unat h)))
             (targetSide (unat h) (scaleOf maxSide (unat w) (unat h))) mime quality env \<and>
         max (targetSide (unat w) (scaleOf maxSide (unat w) (unat h)))
             (targetSide (unat h) (scaleOf maxSide (unat w) (unat h))) = maxSide \<and>
         \<bar>of_nat (targetSide (unat w) (scaleOf maxSide (unat w) (unat h))) -
           of_nat (unat w) * of_nat maxSide / of_nat (max (unat w) (unat h))\<bar> < (1::rat) \<and>
         \<bar>of_nat (targetSide (unat h) (scaleOf maxSide (unat w) (unat h))) -
           of_nat (unat h) * of_nat maxSide / of_nat (max (unat w) (unat h))\<bar> < (1::rat)"
proof -
  have w: "0 < unat w" and h: "0 < unat h" using assms(2,3) by (simp_all add: unat_gt_0)
  have M: "0 < maxSide" using assms(4) by simp
  have m32: "max (unat w) (unat h) < 2 ^ 32" using unat_lt_32 [of w] unat_lt_32 [of h] by simp
  note S = scaleOf_close [OF M assms(5) m32]
  note W = targetSide_bounds [OF M assms(5) m32 w max.cobounded1]
  note H = targetSide_bounds [OF M assms(5) m32 h max.cobounded2]
  have raster: "downscaleImage file maxSide mime quality env =
           renderRaster file (targetSide (unat w) (scaleOf maxSide (unat w) (unat h)))
             (targetSide (unat h) (scaleOf maxSide (unat w) (unat h))) mime quality env"
    using S(2) assms(1) w h by (simp add: downscaleImage_def Let_def)
  have longer: "max (targetSide (unat w) (scaleOf maxSide (unat w) (unat h)))
             (targetSide (unat h) (scaleOf maxSide (unat w) (unat h))) = maxSide"
  proof (cases "unat h \<le> unat w")
    case True
    then have "unat w = max (unat w) (unat h)" by simp
    from W(3) [OF this] H(2) show ?thesis by simp
  next
    case False
    then have "unat h = max (unat w) (unat h)" by simp
    from H(3) [OF this] W(2) show ?thesis by simp
  qed
  from raster longer W(1) H(1) show ?thesis by blast
qed

lemma scale_3000: "scaleOf 1536 3000 2000 = 1152921504606847 / 2251799813685248"
proof -
  have "fl (1536 / 3000) = 1152921504606847 / 2251799813685248" by code_simp
  then show ?thesis by (simp add: scaleOf_def)
qed

lemma target_3000:
  "targetSide 3000 (1152921504606847 / 2251799813685248) = 1536"
  "targetSide 2000 (1152921504606847 / 2251799813685248) = 1024"
proof -
  have "jsround (fl (3000 * (1152921504606847 / 2251799813685248))) = 1536"
       "jsround (fl (2000 * (1152921504606847 / 2251799813685248))) = 1024"
    by code_simp+
  then show "targetSide 3000 (1152921504606847 / 2251799813685248) = 1536"
    "targetSide 2000 (1152921504606847 / 2251799813685248) = 1024"
    by (simp_all add: targetSide_def)
qed


lemma decoding_fields:
  "decoded (decoding w h) = Inr (w, h)"
  "hasOffscreenCanvas (decoding w h)"
  "context2d (decoding w h)"
  "convertToBlob (decoding w h) tw th m q = Inr \<lparr>blobId = 9, type = m, size_b = tw * th\<rparr>"
  by (simp_all add: decoding_def)

theorem downscale_within_bound_witness:
  "decoded (decoding 800 600) = Inr (800, 600) \<and> max (unat (800 :: 32 word)) (unat (600 :: 32 word)) \<le> 1536 \<and>
   downscaleDefault pngFile (decoding 800 600) = Inr pngFile"
  using downscale_within_bound [of "decoding 800 600" 800 600 1536 pngFile "''image/webp''" "92 / 100"]
  by (simp add: decoding_fields downscaleDefault_def)

theorem downscale_raster_witness:
  "max (unat (3000 :: 32 word)) (unat (2000 :: 32 word)) > 1536 \<and>
   downscaleDefault pngFile (decoding 3000 2000) =
     Inr \<lparr>blobId = 9, type = ''image/webp'', size_b = 1536 * 1024\<rparr> \<and>
   targetSide 3000 (scaleOf 1536 3000 2000) = 1536 \<and>
   targetSide 2000 (scaleOf 1536 3000 2000) = 1024"
  using downscale_raster [of "decoding 3000 2000" 3000 2000 1536 pngFile "''image/webp''" "92 / 100"]
  by (simp add: decoding_fields downscaleDefault_def renderRaster_def scale_3000 target_3000)

lemma scale_4000: "scaleOf 1536 (Suc 0) 4000 = 3458764513820541 / 9007199254740992"
proof -
  have "fl (1536 / 4000) = 3458764513820541 / 9007199254740992" by code_simp
  then show ?thesis by (simp add: scaleOf_def)
qed

lemma round_4000:
  "jsround (fl (1 * (3458764513820541 / 9007199254740992))) = 0"
  "jsround (fl (4000 * (3458764513820541 / 9007199254740992))) = 1536"
  by code_simp+

text \<open>
  C5, as stated: the raster has \<open>round(w * scale)\<close> by \<open>round(h * scale)\<close>
  pixels. For a bitmap of 1 by 4000 pixels and the default \<open>maxSide\<close> the
  rounded products are 0 and 1536, and the raster that is encoded has 1 by 1536
  pixels: \<^verbatim>\<open>Math.max(1, ...)\<close> lifts the width.
\<close>

theorem raster_not_rounded_product:
  "downscaleDefault pngFile (decoding 1 4000) =
     Inr \<lparr>blobId = 9, type = ''image/webp'', size_b = 1 * 1536\<rparr> \<and>
   targetSide 1 (scaleOf 1536 1 4000) = 1 \<and>
   jsround (fl (of_nat 1 * scaleOf 1536 1 4000)) = 0 \<and>
   jsround (fl (of_nat 4000 * scaleOf 1536 1 4000)) = 1536"
  using round_4000
  by (simp add: downscaleDefault_def downscaleImage_def Let_def decoding_fields renderRaster_def
      scale_4000 targetSide_def)

section \<open>The lifetime of the preview URL\<close>

lemma previewOk_cong: "previewPart s' = previewPart s \<Longrightarrow> previewOk s' = previewOk s"
  by (simp add: previewPart_def previewOk_def)

lemma stranded_cong: "previewPart s' = previewPart s \<Longrightarrow> stranded u s' = stranded u s"
  by (simp add: previewPart_def stranded_def)

lemma previewPart_frame:
  "previewPart (abortCurrent s) = previewPart s"
  "previewPart (submitJob b s) = previewPart s"
  "previewPart (handleImage b s) = previewPart s"
  "previewPart (snd (chooseBlob file r s)) = previewPart s"
  "previewPart (afterProcess j res s) = previewPart s"
  "previewPart (elapse d s) = previewPart s"
  "previewPart (fireTimer j s) = previewPart s"
  "previewPart (resumeProcess j s) = previewPart s"
  "previewPart (s\<lparr>error := e\<rparr>) = previewPart s"
  "previewPart (s\<lparr>result := x\<rparr>) = previewPart s"
  by (simp_all add: previewPart_def abortCurrent_def submitJob_def handleImage_def
      chooseBlob_def afterProcess_def elapse_def fireTimer_def resumeProcess_def Let_def
      split: option.split sum.split settled.split)

lemma previewPart_afterDownscale:
  "previewPart (mono_afterDownscale f r s) = previewPart s"
  "previewPart (uploader_afterDownscale (Some handleImage) f r s) = previewPart s"
  by (simp_all add: mono_afterDownscale_alt uploader_afterDownscale_alt previewPart_frame)

lemma previewOk_upd:
  "previewOk (s\<lparr>error := e\<rparr>) = previewOk s"
  "previewOk (s\<lparr>result := x\<rparr>) = previewOk s"
  by (simp_all add: previewOk_def)

lemma previewOk_initial: "previewOk initial"
  by (simp add: previewOk_def initial_def)

lemma beginUpload_preview:
  assumes "imagePreviewUrl s \<noteq> Some (nextUrl s)" and "effectPrev s \<noteq> Some (nextUrl s)"
    and "mounted s"
  shows "imagePreviewUrl (beginUpload file s) = Some (nextUrl s)"
    and "effectPrev (beginUpload file s) = Some (nextUrl s)"
    and "nextUrl (beginUpload file s) = nextUrl s + 2"
    and "shown (beginUpload file s) = shown s @ [nextUrl s]"
    and "mounted (beginUpload file s) = mounted s"
    and "awaitingDownscale (beginUpload file s) = awaitingDownscale s @ [(file, nextUrl s + 1)]"
    and "revoked (beginUpload file s) =
           (case effectPrev s of None \<Rightarrow> revoked s | Some prev \<Rightarrow> revoked s @ [prev])"
  using assms
  by (auto simp add: beginUpload_def createObjectURL_def setImagePreviewUrl_def
      revokeObjectURL_def Let_def split: option.split)

lemma previewOk_beginUpload:
  assumes ok: "previewOk s"
  shows "previewOk (beginUpload file s)"
proof -
  define n where "n = nextUrl s"
  have D: "distinct (shown s)"
    and SL: "\<And>u. u \<in> set (shown s) \<Longrightarrow> u < n"
    and RL: "\<And>u. u \<in> set (revoked s) \<Longrightarrow> u < n"
    and AD: "distinct (map snd (awaitingDownscale s))"
    and AF: "\<And>u. u \<in> snd ` set (awaitingDownscale s) \<Longrightarrow>
               u < n \<and> u \<notin> set (shown s) \<and> u \<notin> set (revoked s)"
    and CUR: "imagePreviewUrl s = (if shown s = [] then None else Some (last (shown s)))"
    and EP: "effectPrev s = imagePreviewUrl s"
    and CNT: "\<And>u. u \<in> set (shown s) \<Longrightarrow>
               count_list (revoked s) u = (if imagePreviewUrl s = Some u then 0 else 1)"
    and m: "mounted s"
    using ok unfolding previewOk_def n_def by auto
  have nshown: "n \<notin> set (shown s)" using SL by blast
  have nrev: "n \<notin> set (revoked s)" using RL by blast
  have n1shown: "Suc n \<notin> set (shown s)" using SL by fastforce
  have n1rev: "Suc n \<notin> set (revoked s)" using RL by fastforce
  have n1aw: "Suc n \<notin> snd ` set (awaitingDownscale s)" using AF by fastforce
  have naw: "n \<notin> snd ` set (awaitingDownscale s)" using AF by fastforce
  have cur: "imagePreviewUrl s \<noteq> Some n"
  proof (cases "shown s = []")
    case True
    then show ?thesis using CUR by simp
  next
    case False
    then have "last (shown s) \<in> set (shown s)" by simp
    then have "last (shown s) \<noteq> n" using nshown by metis
    then show ?thesis using CUR False by simp
  qed
  then have fresh: "imagePreviewUrl s \<noteq> Some (nextUrl s)" "effectPrev s \<noteq> Some (nextUrl s)"
    using EP by (simp_all add: n_def)
  note B = beginUpload_preview [OF fresh m, folded n_def]
  define ps where "ps = (case effectPrev s of None \<Rightarrow> [] | Some p \<Rightarrow> [p])"
  have R: "revoked (beginUpload file s) = revoked s @ ps"
    by (simp add: B ps_def split: option.split)
  have ps: "q \<in> set (shown s) \<and> imagePreviewUrl s = Some q" if "q \<in> set ps" for q
  proof -
    from that have q: "effectPrev s = Some q" by (simp add: ps_def split: option.splits)
    then have "shown s \<noteq> []" "q = last (shown s)" using CUR EP by (simp_all split: if_splits)
    then show ?thesis using q EP by simp
  qed
  have psc: "count_list ps u = (if imagePreviewUrl s = Some u then 1 else 0)" for u
    using EP by (simp add: ps_def split: option.split)
  have c1: "distinct (shown s @ [n])" using D nshown by simp
  have c2: "\<forall>u \<in> set (shown s @ [n]). u < n + 2" using SL by fastforce
  have c3: "\<forall>u \<in> set (revoked s @ ps). u < n + 2"
  proof
    fix u assume "u \<in> set (revoked s @ ps)"
    then have "u \<in> set (revoked s) \<or> u \<in> set (shown s)" using ps by auto
    then have "u < n" using RL SL by blast
    then show "u < n + 2" by simp
  qed
  have c4: "distinct (map snd (awaitingDownscale s @ [(file, n + 1)]))"
    using AD n1aw by simp
  have c5: "\<forall>u \<in> snd ` set (awaitingDownscale s @ [(file, n + 1)]).
        u < n + 2 \<and> u \<notin> set (shown s @ [n]) \<and> u \<notin> set (revoked s @ ps)"
  proof
    fix u assume "u \<in> snd ` set (awaitingDownscale s @ [(file, n + 1)])"
    then consider "u \<in> snd ` set (awaitingDownscale s)" | "u = Suc n" by auto
    then show "u < n + 2 \<and> u \<notin> set (shown s @ [n]) \<and> u \<notin> set (revoked s @ ps)"
    proof cases
      case 1
      from AF [OF 1] have a: "u < n" "u \<notin> set (shown s)" "u \<notin> set (revoked s)" by simp_all
      then have "u \<notin> set ps" using ps by blast
      with a show ?thesis by simp
    next
      case 2
      have "Suc n \<notin> set ps" using ps n1shown by blast
      with 2 n1shown n1rev show ?thesis by simp
    qed
  qed
  have c8: "\<forall>u \<in> set (shown s @ [n]).
        count_list (revoked s @ ps) u = (if Some n = Some u then 0 else 1)"
  proof
    fix u assume u: "u \<in> set (shown s @ [n])"
    show "count_list (revoked s @ ps) u = (if Some n = Some u then 0 else 1)"
    proof (cases "u = n")
      case True
      have "n \<notin> set ps" using ps nshown by blast
      then have "count_list (revoked s @ ps) n = 0" using nrev by (simp add: count_list_0_iff)
      then show ?thesis using True by simp
    next
      case False
      with u have "u \<in> set (shown s)" by simp
      from CNT [OF this] psc [of u] False show ?thesis by simp
    qed
  qed
  show ?thesis
    unfolding previewOk_def B(1-6) R n_def [symmetric]
    using c1 c2 c3 c4 c5 c8 m by simp
qed

lemma previewOk_resume:
  assumes "previewOk s" and "k < length (awaitingDownscale s)"
    and "awaitingDownscale s ! k = (file, url)"
  shows "previewOk (revokeObjectURL url
           (s\<lparr>awaitingDownscale := take k (awaitingDownscale s) @ drop (Suc k) (awaitingDownscale s)\<rparr>))"
proof -
  define xs where "xs = awaitingDownscale s"
  have split: "xs = take k xs @ (file, url) # drop (Suc k) xs"
    using id_take_nth_drop [OF assms(2)] assms(3) by (simp add: xs_def)
  have d: "distinct (map snd xs)" using assms(1) by (simp add: previewOk_def xs_def)
  have d': "distinct (map snd (take k xs @ (file, url) # drop (Suc k) xs))"
    using d split by simp
  then have rest: "distinct (map snd (take k xs @ drop (Suc k) xs))"
    and notin: "url \<notin> snd ` set (take k xs @ drop (Suc k) xs)"
    by auto
  have sub: "set (take k xs @ drop (Suc k) xs) \<subseteq> set xs"
    by (auto dest: in_set_takeD in_set_dropD)
  have mem: "(file, url) \<in> set xs" using assms(2,3) by (metis nth_mem xs_def)
  then have u: "url \<notin> set (shown s)" "url < nextUrl s"
    using assms(1) by (auto simp: previewOk_def xs_def)
  show ?thesis
    using assms(1) rest notin sub u
    unfolding previewOk_def revokeObjectURL_def xs_def [symmetric]
    by (auto simp: xs_def [symmetric])
qed

lemma previewOk_mono_step:
  assumes ok: "previewOk s" and e: "e \<noteq> Unmount"
  shows "previewOk (mono_step s e)"
proof (cases e)
  case (Files files)
  have ok1: "previewOk (s\<lparr>error := [], result := []\<rparr>)"
    using ok by (simp add: previewOk_upd)
  have "previewOk (beginUpload f (s\<lparr>error := [], result := []\<rparr>))" for f
    by (rule previewOk_beginUpload [OF ok1])
  then show ?thesis
    using ok Files
    by (auto simp: mono_handleFiles_def Let_def previewOk_upd split: option.split)
next
  case (DownscaleDone k env)
  show ?thesis
  proof (cases "k < length (awaitingDownscale s)")
    case True
    obtain f url where fu: "awaitingDownscale s ! k = (f, url)"
      by (cases "awaitingDownscale s ! k")
    from previewOk_cong [OF previewPart_afterDownscale(1)] previewOk_resume [OF ok True fu]
    show ?thesis by (simp add: DownscaleDone resumeDownscale_at [OF True fu])
  next
    case False
    with ok DownscaleDone show ?thesis by (simp add: resumeDownscale_def)
  qed
next
  case (Tick d)
  from previewOk_cong [OF previewPart_frame(6)] ok Tick show ?thesis by simp
next
  case (Timeout j)
  from previewOk_cong [OF previewPart_frame(7)] ok Timeout show ?thesis by simp
next
  case (Deliver j)
  from previewOk_cong [OF previewPart_frame(8)] ok Deliver show ?thesis by simp
next
  case Unmount
  with e show ?thesis by simp
qed

lemma previewOk_mono_run:
  assumes "Unmount \<notin> set evs"
  shows "previewOk (mono_run evs)"
proof -
  have "previewOk s \<Longrightarrow> Unmount \<notin> set evs \<Longrightarrow> previewOk (foldl mono_step s evs)" for s
  proof (induction evs arbitrary: s)
    case Nil
    then show ?case by simp
  next
    case (Cons e evs)
    from Cons.prems have "e \<noteq> Unmount" "Unmount \<notin> set evs" by auto
    from Cons.IH [OF previewOk_mono_step [OF Cons.prems(1) this(1)] this(2)]
    show ?case by simp
  qed
  from this [OF previewOk_initial assms] show ?thesis by (simp add: mono_run_def)
qed

lemma previewOk_split_step:
  assumes ok: "previewOk s" and e: "e \<noteq> Unmount"
  shows "previewOk (split_step s e)"
proof (cases e)
  case (Files files)
  have "previewOk (beginUpload f s)" for f
    by (rule previewOk_beginUpload [OF ok])
  then show ?thesis
    using ok Files
    by (auto simp: uploader_handleFiles_def split: option.split)
next
  case (DownscaleDone k env)
  show ?thesis
  proof (cases "k < length (awaitingDownscale s)")
    case True
    obtain f url where fu: "awaitingDownscale s ! k = (f, url)"
      by (cases "awaitingDownscale s ! k")
    from previewOk_cong [OF previewPart_afterDownscale(2)] previewOk_resume [OF ok True fu]
    show ?thesis by (simp add: DownscaleDone resumeDownscale_at [OF True fu])
  next
    case False
    with ok DownscaleDone show ?thesis by (simp add: resumeDownscale_def)
  qed
next
  case (Tick d)
  from previewOk_cong [OF previewPart_frame(6)] ok Tick show ?thesis by simp
next
  case (Timeout j)
  from previewOk_cong [OF previewPart_frame(7)] ok Timeout show ?thesis by simp
next
  case (Deliver j)
  from previewOk_cong [OF previewPart_frame(8)] ok Deliver show ?thesis by simp
next
  case Unmount
  with e show ?thesis by simp
qed

lemma previewOk_split_run:
  assumes "Unmount \<notin> set evs"
  shows "previewOk (split_run evs)"
proof -
  have "previewOk s \<Longrightarrow> Unmount \<notin> set evs \<Longrightarrow> previewOk (foldl split_step s evs)" for s
  proof (induction evs arbitrary: s)
    case Nil
    then show ?case by simp
  next
    case (Cons e evs)
    from Cons.prems have "e \<noteq> Unmount" "Unmount \<notin> set evs" by auto
    from Cons.IH [OF previewOk_split_step [OF Cons.prems(1) this(1)] this(2)]
    show ?case by simp
  qed
  from this [OF previewOk_initial assms] show ?thesis by (simp add: split_run_def)
qed

lemma previewOk_current:
  assumes "previewOk s" and "imagePreviewUrl s = Some u"
  shows "u \<in> set (shown s)"
proof (cases "shown s = []")
  case True
  with assms show ?thesis by (simp add: previewOk_def)
next
  case False
  then have "last (shown s) \<in> set (shown s)" by simp
  moreover have "u = last (shown s)" using assms False by (simp add: previewOk_def)
  ultimately show ?thesis by simp
qed

text \<open>Disposal: the cleanup revokes the URL on display, so that every URL
  shown so far has then been revoked exactly once.\<close>

lemma cleanupPreview_once:
  assumes ok: "previewOk s" and u: "u \<in> set (shown s)"
  shows "count_list (revoked (cleanupPreview s)) u = 1"
proof (cases "imagePreviewUrl s")
  case None
  with ok u show ?thesis
    by (simp add: previewOk_def cleanupPreview_def split: if_splits)
next
  case (Some c)
  from ok u have "count_list (revoked s) u = (if imagePreviewUrl s = Some u then 0 else 1)"
    unfolding previewOk_def by blast
  then show ?thesis
    by (simp add: cleanupPreview_def revokeObjectURL_def Some)
qed

lemma teardown_revokes_once:
  assumes ok: "previewOk s"
  shows "\<not> mounted (mono_step s Unmount) \<and> \<not> mounted (split_step s Unmount) \<and>
    shown (mono_step s Unmount) = shown s \<and> shown (split_step s Unmount) = shown s \<and>
    (\<forall>u \<in> set (shown s). count_list (revoked (mono_step s Unmount)) u = 1) \<and>
    (\<forall>u \<in> set (shown s). count_list (revoked (split_step s Unmount)) u = 1)"
proof -
  have m: "mounted s" using ok by (simp add: previewOk_def)
  have p: "previewPart (mono_cleanup s) = previewPart (cleanupPreview s)"
    by (simp add: mono_cleanup_def previewPart_frame)
  then have r: "revoked (mono_cleanup s) = revoked (cleanupPreview s)"
    "shown (mono_cleanup s) = shown (cleanupPreview s)"
    by (simp_all add: previewPart_def)
  have s: "shown (cleanupPreview s) = shown s"
    by (simp add: cleanupPreview_def revokeObjectURL_def split: option.split)
  show ?thesis
    using m cleanupPreview_once [OF ok] by (simp add: r s uploader_cleanup_def)
qed

text \<open>
  Within the component's lifetime the manager does what its comment says
  (\<^verbatim>\<open>Manage object URL lifecycle to avoid leaks\<close>): as long as no disposal has
  happened, the URL on display is among those shown and is not revoked, and
  every other URL shown has been revoked exactly once; a disposal then revokes
  the one on display, once.
\<close>

lemma preview_lifecycle_while_mounted:
  assumes "Unmount \<notin> set evs"
  shows "(\<forall>u \<in> set (shown (mono_run evs)).
      count_list (revoked (mono_run evs)) u =
        (if imagePreviewUrl (mono_run evs) = Some u then 0 else 1)) \<and>
   (\<forall>u. imagePreviewUrl (mono_run evs) = Some u \<longrightarrow> u \<in> set (shown (mono_run evs))) \<and>
   (\<forall>u \<in> set (shown (mono_run evs)).
      count_list (revoked (mono_run (evs @ [Unmount]))) u = 1) \<and>
   (\<forall>u \<in> set (shown (split_run evs)).
      count_list (revoked (split_run evs)) u =
        (if imagePreviewUrl (split_run evs) = Some u then 0 else 1)) \<and>
   (\<forall>u. imagePreviewUrl (split_run evs) = Some u \<longrightarrow> u \<in> set (shown (split_run evs))) \<and>
   (\<forall>u \<in> set (shown (split_run evs)).
      count_list (revoked (split_run (evs @ [Unmount]))) u = 1)"
proof -
  note m = previewOk_mono_run [OF assms] and s = previewOk_split_run [OF assms]
  from m have a: "\<forall>u \<in> set (shown (mono_run evs)).
      count_list (revoked (mono_run evs)) u =
        (if imagePreviewUrl (mono_run evs) = Some u then 0 else 1)"
    unfolding previewOk_def by blast
  from s have b: "\<forall>u \<in> set (shown (split_run evs)).
      count_list (revoked (split_run evs)) u =
        (if imagePreviewUrl (split_run evs) = Some u then 0 else 1)"
    unfolding previewOk_def by blast
  have c: "mono_run (evs @ [Unmount]) = mono_step (mono_run evs) Unmount"
    "split_run (evs @ [Unmount]) = split_step (split_run evs) Unmount"
    by (simp_all add: mono_run_def split_run_def)
  from teardown_revokes_once [OF m] teardown_revokes_once [OF s] a b
    previewOk_current [OF m] previewOk_current [OF s]
  show ?thesis unfolding c by blast
qed

text \<open>
  After the disposal nothing revokes a preview any more: the effect and the
  cleanup belong to the disposed component, while \<^verbatim>\<open>handleFiles\<close> still
  runs when a file arrives. A URL that is stranded stays so.
\<close>

lemma beginUpload_unmounted:
  assumes "\<not> mounted s"
  shows "\<not> mounted (beginUpload f s)"
    and "revoked (beginUpload f s) = revoked s"
    and "nextUrl (beginUpload f s) = nextUrl s + 2"
    and "awaitingDownscale (beginUpload f s) = awaitingDownscale s @ [(f, nextUrl s + 1)]"
  using assms
  by (simp_all add: beginUpload_def createObjectURL_def setImagePreviewUrl_def Let_def)

lemma stranded_beginUpload:
  assumes "stranded u s"
  shows "stranded u (beginUpload f s)"
proof -
  from assms have m: "\<not> mounted s" by (simp add: stranded_def)
  from assms beginUpload_unmounted(1) [OF m, of f] show ?thesis
    by (auto simp: stranded_def beginUpload_unmounted(2-4) [OF m])
qed

lemma stranded_upd:
  "stranded u (s\<lparr>error := e\<rparr>) = stranded u s"
  "stranded u (s\<lparr>result := x\<rparr>) = stranded u s"
  by (simp_all add: stranded_def)

lemma stranded_resume:
  assumes st: "stranded u s" and k: "k < length (awaitingDownscale s)"
    and fu: "awaitingDownscale s ! k = (f, url)"
  shows "stranded u (revokeObjectURL url
           (s\<lparr>awaitingDownscale := take k (awaitingDownscale s) @ drop (Suc k) (awaitingDownscale s)\<rparr>))"
proof -
  have "(f, url) \<in> set (awaitingDownscale s)" using k fu by (metis nth_mem)
  then have "url \<in> snd ` set (awaitingDownscale s)" by force
  with st have ne: "url \<noteq> u" by (auto simp: stranded_def)
  have sub: "set (take k (awaitingDownscale s) @ drop (Suc k) (awaitingDownscale s)) \<subseteq>
      set (awaitingDownscale s)"
    by (auto dest: in_set_takeD in_set_dropD)
  from st ne sub show ?thesis
    unfolding stranded_def revokeObjectURL_def by auto
qed

lemma stranded_mono_step:
  assumes st: "stranded u s"
  shows "stranded u (mono_step s e)"
proof (cases e)
  case (Files files)
  have "stranded u (s\<lparr>error := [], result := []\<rparr>)"
    using st by (simp add: stranded_def)
  then have "stranded u (beginUpload f (s\<lparr>error := [], result := []\<rparr>))" for f
    by (rule stranded_beginUpload)
  then show ?thesis
    using st Files
    by (auto simp: mono_handleFiles_def Let_def stranded_upd split: option.split)
next
  case (DownscaleDone k env)
  show ?thesis
  proof (cases "k < length (awaitingDownscale s)")
    case True
    obtain f url where fu: "awaitingDownscale s ! k = (f, url)"
      by (cases "awaitingDownscale s ! k")
    from stranded_cong [OF previewPart_afterDownscale(1)] stranded_resume [OF st True fu]
    show ?thesis by (simp add: DownscaleDone resumeDownscale_at [OF True fu])
  next
    case False
    with st DownscaleDone show ?thesis by (simp add: resumeDownscale_def)
  qed
next
  case (Tick d)
  from stranded_cong [OF previewPart_frame(6)] st Tick show ?thesis by simp
next
  case (Timeout j)
  from stranded_cong [OF previewPart_frame(7)] st Timeout show ?thesis by simp
next
  case (Deliver j)
  from stranded_cong [OF previewPart_frame(8)] st Deliver show ?thesis by simp
next
  case Unmount
  with st show ?thesis by (simp add: stranded_def)
qed

lemma stranded_mono_run:
  assumes "stranded u (mono_run evs)"
  shows "stranded u (mono_run (evs @ evs'))"
proof -
  have "stranded u s \<Longrightarrow> stranded u (foldl mono_step s evs')" for s
  proof (induction evs' arbitrary: s)
    case Nil
    then show ?case by simp
  next
    case (Cons e evs')
    from Cons.IH [OF stranded_mono_step [OF Cons.prems]] show ?case by simp
  qed
  from this [OF assms] show ?thesis by (simp add: mono_run_def)
qed

lemma stranded_split_step:
  assumes st: "stranded u s"
  shows "stranded u (split_step s e)"
proof (cases e)
  case (Files files)
  have "stranded u (beginUpload f s)" for f
    using st by (rule stranded_beginUpload)
  then show ?thesis
    using st Files
    by (auto simp: uploader_handleFiles_def split: option.split)
next
  case (DownscaleDone k env)
  show ?thesis
  proof (cases "k < length (awaitingDownscale s)")
    case True
    obtain f url where fu: "awaitingDownscale s ! k = (f, url)"
      by (cases "awaitingDownscale s ! k")
    from stranded_cong [OF previewPart_afterDownscale(2)] stranded_resume [OF st True fu]
    show ?thesis by (simp add: DownscaleDone resumeDownscale_at [OF True fu])
  next
    case False
    with st DownscaleDone show ?thesis by (simp add: resumeDownscale_def)
  qed
next
  case (Tick d)
  from stranded_cong [OF previewPart_frame(6)] st Tick show ?thesis by simp
next
  case (Timeout j)
  from stranded_cong [OF previewPart_frame(7)] st Timeout show ?thesis by simp
next
  case (Deliver j)
  from stranded_cong [OF previewPart_frame(8)] st Deliver show ?thesis by simp
next
  case Unmount
  with st show ?thesis by (simp add: stranded_def)
qed

lemma stranded_split_run:
  assumes "stranded u (split_run evs)"
  shows "stranded u (split_run (evs @ evs'))"
proof -
  have "stranded u s \<Longrightarrow> stranded u (foldl split_step s evs')" for s
  proof (induction evs' arbitrary: s)
    case Nil
    then show ?case by simp
  next
    case (Cons e evs')
    from Cons.IH [OF stranded_split_step [OF Cons.prems]] show ?case by simp
  qed
  from this [OF assms] show ?thesis by (simp add: split_run_def)
qed

lemma lateFile_mono:
  "imagePreviewUrl (mono_run lateFile) = Some 2"
  "mounted (mono_run lateFile) = False"
  "shown (mono_run lateFile) = [0, 2]"
  "revoked (mono_run lateFile) = [0]"
  "nextUrl (mono_run lateFile) = 4"
  "awaitingDownscale (mono_run lateFile) = [(pngFile, 1), (jpegFile, 3)]"
  by (simp_all add: lateFile_def mono_run_def mono_handleFiles_def firstFile_def pngFile_def
      jpegFile_def MAX_BYTES_def beginUpload_def createObjectURL_def setImagePreviewUrl_def
      revokeObjectURL_def mono_cleanup_def cleanupPreview_def abortCurrent_def initial_def
      Let_def)

lemma lateFile_split:
  "imagePreviewUrl (split_run lateFile) = Some 2"
  "mounted (split_run lateFile) = False"
  "shown (split_run lateFile) = [0, 2]"
  "revoked (split_run lateFile) = [0]"
  "nextUrl (split_run lateFile) = 4"
  "awaitingDownscale (split_run lateFile) = [(pngFile, 1), (jpegFile, 3)]"
  by (simp_all add: lateFile_def split_run_def uploader_handleFiles_def firstFile_def
      pngFile_def jpegFile_def MAX_BYTES_def beginUpload_def createObjectURL_def
      setImagePreviewUrl_def revokeObjectURL_def uploader_cleanup_def cleanupPreview_def
      initial_def Let_def)

text \<open>
  C6. The claim: the preview URL is revoked exactly once, when it is replaced
  or when the component is torn down, and is never leaked. A file is chosen
  (URL 0 becomes the preview), the component is disposed (the cleanup revokes
  URL 0), and then a second file reaches \<^verbatim>\<open>handleFiles\<close>, from the file
  dialog that was still open or from a drop in flight. The handler creates
  URL 2 and stores it in the signal; the effect that would revoke it on
  replacement and the cleanup that would revoke it on disposal are both gone.
  URL 2 is the preview of a disposed component, it is not revoked, and no
  later event revokes it: it is leaked, in the component and in the monolith.
\<close>

theorem late_file_leaks_preview:
  "imagePreviewUrl (split_run lateFile) = Some 2 \<and>
   mounted (split_run lateFile) = False \<and>
   shown (split_run lateFile) = [0, 2] \<and>
   revoked (split_run lateFile) = [0] \<and>
   (\<forall>evs. count_list (revoked (split_run (lateFile @ evs))) 2 = 0) \<and>
   imagePreviewUrl (mono_run lateFile) = Some 2 \<and>
   mounted (mono_run lateFile) = False \<and>
   shown (mono_run lateFile) = [0, 2] \<and>
   revoked (mono_run lateFile) = [0] \<and>
   (\<forall>evs. count_list (revoked (mono_run (lateFile @ evs))) 2 = 0)"
proof -
  have "stranded 2 (split_run lateFile)" "stranded 2 (mono_run lateFile)"
    by (simp_all add: stranded_def lateFile_split lateFile_mono)
  then have "stranded 2 (split_run (lateFile @ evs))" "stranded 2 (mono_run (lateFile @ evs))"
    for evs
    by (simp_all add: stranded_split_run stranded_mono_run)
  then have "count_list (revoked (split_run (lateFile @ evs))) 2 = 0"
    "count_list (revoked (mono_run (lateFile @ evs))) 2 = 0" for evs
    by (simp_all add: stranded_def count_list_0_iff)
  then show ?thesis by (simp add: lateFile_split lateFile_mono)
qed

end
